theory Spec2Isabelle
  imports Main "HOL-Library.Product_Lexorder" "HOL-Library.Sublist"
begin

chapter \<open>The embedding\<close>

section \<open>Strings\<close>

text \<open>
  Python \<open>str\<close> values are modelled as \<^typ>\<open>string\<close>. The embedding covers ASCII text:
  \<open>isspace\<close>, \<open>upper\<close>, \<open>lower\<close> and the regex class \<open>\d\<close> are given on the ASCII
  range, and every other character stands for itself.
\<close>

definition is_space :: "char \<Rightarrow> bool" where
  \<comment> \<open>\<open>str.isspace\<close> on ASCII: TAB, LF, VT, FF, CR, FS, GS, RS, US and the blank.\<close>
  "is_space c = (let n = (of_char c :: nat) in n = 32 \<or> (9 \<le> n \<and> n \<le> 13) \<or> (28 \<le> n \<and> n \<le> 31))"

definition is_digit :: "char \<Rightarrow> bool" where
  "is_digit c = (let n = (of_char c :: nat) in 48 \<le> n \<and> n \<le> 57)"

definition is_lower :: "char \<Rightarrow> bool" where
  "is_lower c = (let n = (of_char c :: nat) in 97 \<le> n \<and> n \<le> 122)"

definition is_upper :: "char \<Rightarrow> bool" where
  "is_upper c = (let n = (of_char c :: nat) in 65 \<le> n \<and> n \<le> 90)"

definition upper_char :: "char \<Rightarrow> char" where
  "upper_char c = (if is_lower c then char_of ((of_char c :: nat) - 32) else c)"

definition lower_char :: "char \<Rightarrow> char" where
  "lower_char c = (if is_upper c then char_of ((of_char c :: nat) + 32) else c)"

definition upper :: "string \<Rightarrow> string" where
  "upper s = map upper_char s"

definition lower :: "string \<Rightarrow> string" where
  "lower s = map lower_char s"

definition lstrip :: "string \<Rightarrow> string" where
  "lstrip s = dropWhile is_space s"

definition rstrip :: "string \<Rightarrow> string" where
  "rstrip s = rev (dropWhile is_space (rev s))"

definition strip :: "string \<Rightarrow> string" where
  \<comment> \<open>\<open>s.strip()\<close>: white space removed at both ends.\<close>
  "strip s = rstrip (lstrip s)"

section \<open>Value normalisation (prepare\_csv\_build.py)\<close>

definition normalize_sex :: "string \<Rightarrow> string" where
  \<comment> \<open>\<open>v = (v or '').strip().upper()\<close>, then the two membership tests, then \<open>return v\<close>.\<close>
  "normalize_sex v0 =
     (let v = upper (strip v0) in
      if v = ''M'' \<or> v = ''MALE'' then ''M''
      else if v = ''F'' \<or> v = ''FEMALE'' then ''F''
      else v)"

definition normalize_dx :: "string \<Rightarrow> string" where
  "normalize_dx v0 =
     (let v = upper (strip v0) in
      if v = ''CN'' \<or> v = ''CONTROL'' \<or> v = ''NORMAL'' then ''0''
      else if v = ''MCI'' \<or> v = ''EMCI'' \<or> v = ''LMCI'' then ''0.5''
      else if v = ''AD'' \<or> v = ''DEMENTIA'' \<or> v = ''ALZHEIMERS'' then ''1''
      else [])"

definition sex_code :: "string \<Rightarrow> string" where
  \<comment> \<open>\<open>sex = "0" if sex_raw == "M" else "1" if sex_raw == "F" else ""\<close> in \<open>build_dataset\<close>,
      with \<open>sex_raw = normalize_sex(...)\<close>.\<close>
  "sex_code raw = (let sex_raw = normalize_sex raw in
     if sex_raw = ''M'' then ''0'' else if sex_raw = ''F'' then ''1'' else [])"

section \<open>Timestamp extraction (prepare\_csv.py)\<close>

text \<open>
  A \<open>datetime\<close> without time zone is its six fields (year, month, day, hour, minute,
  second); the microsecond is always 0 here. Python compares two such values field by
  field in this order, which is the lexicographic order of the tuple.
\<close>

type_synonym datetime = "nat \<times> nat \<times> nat \<times> nat \<times> nat \<times> nat"

text \<open>
  The three patterns \<open>TS14\<close>, \<open>TS8\<close> and \<open>Y4\<close> have the same shape: a negative
  lookbehind \<open>(?<!\d)\<close>, a fixed sequence of digit classes \<open>[a-b]\<close>, and a negative
  lookahead \<open>(?!\d)\<close>. A class \<open>[a-b]\<close> is the pair \<open>(a, b)\<close> of its digit bounds; the
  groups of each pattern tile the whole match, so \<open>"".join(m.groups())\<close> is the matched text.
\<close>

type_synonym digit_class = "nat \<times> nat"

definition in_class :: "char \<Rightarrow> digit_class \<Rightarrow> bool" where
  "in_class c cl = (48 + fst cl \<le> (of_char c :: nat) \<and> (of_char c :: nat) \<le> 48 + snd cl)"

definition TS14 :: "digit_class list" where
  "TS14 = [(1,2),(0,9),(0,9),(0,9), (0,1),(0,9), (0,3),(0,9), (0,2),(0,9), (0,5),(0,9), (0,5),(0,9)]"

definition TS8 :: "digit_class list" where
  "TS8 = [(1,2),(0,9),(0,9),(0,9), (0,1),(0,9), (0,3),(0,9)]"

definition Y4 :: "digit_class list" where
  "Y4 = [(1,2),(0,9),(0,9),(0,9)]"

definition match_here :: "digit_class list \<Rightarrow> string \<Rightarrow> bool" where
  \<comment> \<open>The classes match a prefix of \<open>s\<close> and the lookahead holds after it.\<close>
  "match_here cls s =
     (length cls \<le> length s \<and> list_all2 in_class (take (length cls) s) cls \<and>
      (case drop (length cls) s of [] \<Rightarrow> True | d # _ \<Rightarrow> \<not> is_digit d))"

fun re_search :: "digit_class list \<Rightarrow> bool \<Rightarrow> string \<Rightarrow> string option" where
  \<comment> \<open>\<open>rx.search\<close>: the leftmost position where the pattern matches; the flag tells whether
      the character before the current position is a digit (the lookbehind).\<close>
  "re_search cls prev_digit [] = None"
| "re_search cls prev_digit (c # cs) =
     (if \<not> prev_digit \<and> match_here cls (c # cs) then Some (take (length cls) (c # cs))
      else re_search cls (is_digit c) cs)"

definition digit_val :: "char \<Rightarrow> nat" where
  "digit_val c = (of_char c :: nat) - 48"

definition num_of :: "string \<Rightarrow> nat" where
  "num_of s = foldl (\<lambda>a c. 10 * a + digit_val c) 0 s"

definition is_leap :: "nat \<Rightarrow> bool" where
  "is_leap y = (y mod 4 = 0 \<and> (y mod 100 \<noteq> 0 \<or> y mod 400 = 0))"

definition days_in_month :: "nat \<Rightarrow> nat \<Rightarrow> nat" where
  "days_in_month y m =
     (if m = 2 then (if is_leap y then 29 else 28)
      else if m = 4 \<or> m = 6 \<or> m = 9 \<or> m = 11 then 30 else 31)"

definition valid_datetime :: "datetime \<Rightarrow> bool" where
  \<comment> \<open>The range checks of the \<open>datetime\<close> constructor.\<close>
  "valid_datetime dt = (case dt of (y, m, d, hh, mm, ss) \<Rightarrow>
     1 \<le> y \<and> y \<le> 9999 \<and> 1 \<le> m \<and> m \<le> 12 \<and> 1 \<le> d \<and> d \<le> days_in_month y m \<and>
     hh \<le> 23 \<and> mm \<le> 59 \<and> ss \<le> 59)"

definition strptime14 :: "string \<Rightarrow> datetime option" where
  \<comment> \<open>\<open>datetime.strptime(raw, "%Y%m%d%H%M%S")\<close> on a run of 14 digits; \<open>None\<close> is the
      \<open>ValueError\<close>. On 14 digits the directive regex consumes the whole text only when every
      field takes two digits (four for the year), so a field out of range is an error.\<close>
  "strptime14 raw =
     (if length raw = 14 \<and> list_all is_digit raw then
        (let dt = (num_of (take 4 raw), num_of (take 2 (drop 4 raw)), num_of (take 2 (drop 6 raw)),
                   num_of (take 2 (drop 8 raw)), num_of (take 2 (drop 10 raw)),
                   num_of (take 2 (drop 12 raw)))
         in if valid_datetime dt then Some dt else None)
      else None)"

definition strptime8 :: "string \<Rightarrow> datetime option" where
  \<comment> \<open>\<open>datetime.strptime(raw, "%Y%m%d")\<close> on a run of 8 digits: midnight of that day.\<close>
  "strptime8 raw =
     (if length raw = 8 \<and> list_all is_digit raw then
        (let dt = (num_of (take 4 raw), num_of (take 2 (drop 4 raw)), num_of (take 2 (drop 6 raw)),
                   0, 0, 0)
         in if valid_datetime dt then Some dt else None)
      else None)"

definition try14 :: "string \<Rightarrow> datetime option" where
  \<comment> \<open>One round of the first loop: skip an empty text, search, parse, \<open>pass\<close> on error.\<close>
  "try14 t = (if t = [] then None else
     (case re_search TS14 False t of None \<Rightarrow> None | Some raw \<Rightarrow> strptime14 raw))"

definition try8 :: "string \<Rightarrow> datetime option" where
  "try8 t = (if t = [] then None else
     (case re_search TS8 False t of None \<Rightarrow> None | Some raw \<Rightarrow> strptime8 raw))"

definition try4 :: "string \<Rightarrow> datetime option" where
  \<comment> \<open>One round of the third loop. Its \<open>except\<close> branch parses again with \<open>"%Y%m%d"\<close>; the
      first parse of a matched year never fails (lemma \<open>try4_year\<close>), so that branch is dead.\<close>
  "try4 t = (if t = [] then None else
     (case re_search Y4 False t of None \<Rightarrow> None
      | Some y \<Rightarrow> (case strptime14 (y @ ''0101000000'') of Some d \<Rightarrow> Some d
                  | None \<Rightarrow> strptime8 (y @ ''0101''))))"

fun first_hit :: "(string \<Rightarrow> datetime option) \<Rightarrow> string list \<Rightarrow> datetime option" where
  \<comment> \<open>\<open>for t in texts: ... return\<close>: the first text for which the round returns.\<close>
  "first_hit f [] = None"
| "first_hit f (t # ts) = (case f t of Some d \<Rightarrow> Some d | None \<Rightarrow> first_hit f ts)"

definition parse_timestamp_from_texts :: "string list \<Rightarrow> datetime option" where
  "parse_timestamp_from_texts texts =
     (case first_hit try14 texts of Some d \<Rightarrow> Some d
      | None \<Rightarrow> (case first_hit try8 texts of Some d \<Rightarrow> Some d
                 | None \<Rightarrow> first_hit try4 texts))"

section \<open>File candidate matcher (convert\_to\_dataset\_csv.py)\<close>

text \<open>
  A \<open>pathlib.Path\<close> is the list of its parts, as \<open>path.parts\<close> gives them: the anchor
  \<open>/\<close> first when the path is absolute, then one part for each directory and the file name.
\<close>

type_synonym path = "string list"

fun join :: "string \<Rightarrow> string list \<Rightarrow> string" where
  \<comment> \<open>\<open>sep.join(parts)\<close>\<close>
  "join sep [] = []"
| "join sep [p] = p"
| "join sep (p # q # ps) = p @ sep @ join sep (q # ps)"

definition as_posix :: "path \<Rightarrow> string" where
  \<comment> \<open>\<open>path.as_posix()\<close>, also \<open>str(path)\<close>: the anchor, then the other parts with \<open>/\<close> between.\<close>
  "as_posix p = (case p of [] \<Rightarrow> ''.''
     | a # rest \<Rightarrow> if a \<noteq> [] \<and> hd a = CHR ''/'' then a @ join ''/'' rest
                 else join ''/'' (a # rest))"

definition normalize :: "string \<Rightarrow> string" where
  \<comment> \<open>\<open>(s or "").strip()\<close>\<close>
  "normalize s = strip s"

definition score_candidate :: "path \<Rightarrow> string \<Rightarrow> string \<Rightarrow> string \<Rightarrow> string \<Rightarrow> int \<times> int" where
  \<comment> \<open>\<open>x in s_path\<close> on strings is the contiguous-sublist test; \<open>part.startswith(img)\<close> is
      the prefix test. Each \<open>for ... break\<close> loop adds its bonus once if some part qualifies.\<close>
  "score_candidate p subject_id0 image_id0 series_id image_visit =
     (let s_path = as_posix p;
          subj = normalize subject_id0; img = normalize image_id0;
          ser = normalize series_id; vis = normalize image_visit;
          score0 = (0 :: int);
          prefix_len0 = (0 :: int);
          score1 = (if subj \<noteq> [] \<and> list_ex (\<lambda>part. part = subj) p then score0 + 100 else score0);
          score2 = (if img \<noteq> [] \<and> list_ex (\<lambda>part. part = img) p then score1 + 80 else score1);
          score3 = (if img \<noteq> [] \<and> list_ex (\<lambda>part. prefix img part) p then score2 + 60 else score2);
          prefix_len1 = (if img \<noteq> [] \<and> list_ex (\<lambda>part. prefix img part) p
                         then max prefix_len0 (int (length img)) else prefix_len0);
          score4 = (if img \<noteq> [] \<and> sublist img s_path then score3 + 40 else score3);
          score5 = (if ser \<noteq> [] \<and> sublist ser s_path then score4 + 10 else score4);
          score6 = (if vis \<noteq> [] \<and> sublist vis s_path then score5 + 10 else score5)
      in (score6, prefix_len1))"

fun best_loop :: "('a \<Rightarrow> int \<times> int) \<Rightarrow> 'a option \<Rightarrow> int \<times> int \<Rightarrow> 'a list \<Rightarrow> 'a option \<times> (int \<times> int)" where
  \<comment> \<open>The loop of \<open>choose_best\<close>; \<open>sc > best_score\<close> compares the two tuples lexicographically.\<close>
  "best_loop f best best_score [] = (best, best_score)"
| "best_loop f best best_score (c # cs) =
     (let sc = f c in
      if sc > best_score then best_loop f (Some c) sc cs else best_loop f best best_score cs)"

definition choose_best :: "path list \<Rightarrow> string \<Rightarrow> string \<Rightarrow> string \<Rightarrow> string \<Rightarrow> path option" where
  "choose_best cands subject_id0 image_id0 series_id image_visit =
     (if cands = [] then None
      else (case best_loop (\<lambda>c. score_candidate c subject_id0 image_id0 series_id image_visit)
                   None (-1, -1) cands of
              (best, best_score) \<Rightarrow>
                if length cands > 1 \<and> fst best_score \<le> 0 then None else best))"

section \<open>Dataset rows from the source CSV (convert\_to\_dataset\_csv.py)\<close>

text \<open>The ten columns of \<open>dataset.csv\<close>, \<open>A.csv\<close> and \<open>B.csv\<close>.\<close>

record dataset_row =
  subject_id :: string
  image_uid :: string
  split :: string
  sex :: string
  age :: string
  diagnosis :: string
  last_diagnosis :: string
  image_path :: string
  segm_path :: string
  latent_path :: string

text \<open>A row read by \<open>csv.DictReader\<close> is a dictionary from column names to texts.\<close>

type_synonym csv_row = "string \<rightharpoonup> string"

fun replace_str :: "string \<Rightarrow> string \<Rightarrow> string \<Rightarrow> string" where
  \<comment> \<open>\<open>s.replace(old, new)\<close> for a non-empty \<open>old\<close> (both call sites pass a constant): every
      occurrence, left to right, without overlap.\<close>
  "replace_str old new [] = []"
| "replace_str old new (c # cs) =
     (if old \<noteq> [] \<and> prefix old (c # cs) then new @ replace_str old new (drop (length old - 1) cs)
      else c # replace_str old new cs)"

definition latent_path_of :: "string \<Rightarrow> string" where
  \<comment> \<open>\<open>image_path.replace(".nii.gz", "_latent.npz").replace(".nii", "_latent.npz")\<close>\<close>
  "latent_path_of img_path =
     replace_str ''.nii'' ''_latent.npz'' (replace_str ''.nii.gz'' ''_latent.npz'' img_path)"

definition endswith :: "string \<Rightarrow> string \<Rightarrow> bool" where
  "endswith s suf = suffix suf s"

definition path_name :: "path \<Rightarrow> string" where
  \<comment> \<open>\<open>path.name\<close>: the last part, empty for the bare anchor.\<close>
  "path_name p = (case rev p of [] \<Rightarrow> []
     | a # rest \<Rightarrow> if rest = [] \<and> a \<noteq> [] \<and> hd a = CHR ''/'' then [] else a)"

definition path_stem :: "path \<Rightarrow> string" where
  \<comment> \<open>\<open>path.stem\<close>: the name up to its last dot, when that dot is neither first nor last.\<close>
  "path_stem p =
     (let name = path_name p; tail = takeWhile (\<lambda>c. c \<noteq> CHR ''.'') (rev name) in
      if length tail < length name \<and> 0 < length tail \<and> length tail + 1 < length name
      then take (length name - length tail - 1) name else name)"

definition path_parent :: "path \<Rightarrow> path" where
  \<comment> \<open>\<open>path.parent\<close>: the path without its name; the anchor is its own parent.\<close>
  "path_parent p = (if path_name p = [] then p else butlast p)"

definition find_segm_near :: "(path \<Rightarrow> bool) \<Rightarrow> path \<Rightarrow> path option" where
  \<comment> \<open>The file system is the predicate \<open>exists\<close>.\<close>
  "find_segm_near exists warped =
     (let parent = path_parent warped in
      if exists (parent @ [''segm.nii.gz'']) then Some (parent @ [''segm.nii.gz''])
      else if exists (parent @ [''segm.nii'']) then Some (parent @ [''segm.nii''])
      else None)"

record meta_entry =
  m_sex :: string
  m_age :: string
  m_diagnosis :: string
  m_last_diagnosis :: string

text \<open>
  What the loop of \<open>main\<close> reads but does not change: the index \<open>subj2warped\<close> (a dictionary
  in insertion order, hence a list of pairs with distinct names), the metadata, and the file
  system as far as \<open>Path.exists\<close> and \<open>Path.resolve\<close> show it.
\<close>

record conv_env =
  subj2warped :: "(string \<times> path list) list"
  meta :: "string \<rightharpoonup> meta_entry"
  fs_exists :: "path \<Rightarrow> bool"
  fs_resolve :: "path \<Rightarrow> path"

definition get_norm :: "csv_row \<Rightarrow> string \<Rightarrow> string" where
  \<comment> \<open>\<open>normalize(r.get(k))\<close>: a missing column is \<open>None\<close>, which \<open>normalize\<close> reads as empty.\<close>
  "get_norm r k = normalize (case r k of None \<Rightarrow> [] | Some v \<Rightarrow> v)"

definition collect_cands :: "(string \<times> path list) list \<Rightarrow> string \<Rightarrow> string \<Rightarrow> path list" where
  \<comment> \<open>The candidate pool of one row: the subject's directory, the directories named after the
      image id, and all directories when these give nothing.\<close>
  "collect_cands idx subject_id0 image_id0 =
     (let cands1 = (if subject_id0 \<noteq> [] then (case map_of idx subject_id0 of None \<Rightarrow> [] | Some ws \<Rightarrow> ws)
                    else []);
          cands2 = cands1 @ (if image_id0 \<noteq> []
                     then concat (map snd (filter (\<lambda>(dname, ws). prefix image_id0 dname \<or> sublist image_id0 dname) idx))
                     else [])
      in if cands2 = [] then concat (map snd idx) else cands2)"

definition match_row :: "conv_env \<Rightarrow> csv_row \<Rightarrow> path option" where
  "match_row env r =
     choose_best (collect_cands (subj2warped env) (get_norm r ''subject_id'') (get_norm r ''image_id''))
       (get_norm r ''subject_id'') (get_norm r ''image_id'') (get_norm r ''series_id'')
       (get_norm r ''image_visit'')"

definition make_row :: "conv_env \<Rightarrow> csv_row \<Rightarrow> path \<Rightarrow> dataset_row" where
  \<comment> \<open>The \<open>else\<close> branch of the loop body: the row appended for a matched path.\<close>
  "make_row env r warped =
     (let subject_id = get_norm r ''subject_id''; image_id = get_norm r ''image_id'';
          split = (if get_norm r ''split'' \<noteq> [] then get_norm r ''split'' else ''train'');
          segm = find_segm_near (fs_exists env) warped;
          image_path = as_posix (fs_resolve env warped);
          segm_path = (case segm of None \<Rightarrow> [] | Some s \<Rightarrow> as_posix (fs_resolve env s));
          latent_path = latent_path_of image_path;
          image_uid = (if image_id \<noteq> [] then image_id
                       else if endswith (path_name warped) ''.nii.gz''
                       then take (length (path_name warped) - 7) (path_name warped)
                       else path_stem warped);
          m = meta env subject_id
      in \<lparr> subject_id = subject_id, image_uid = image_uid, split = split,
           sex = (case m of None \<Rightarrow> [] | Some e \<Rightarrow> m_sex e),
           age = (case m of None \<Rightarrow> [] | Some e \<Rightarrow> m_age e),
           diagnosis = (case m of None \<Rightarrow> [] | Some e \<Rightarrow> m_diagnosis e),
           last_diagnosis = (case m of None \<Rightarrow> [] | Some e \<Rightarrow> m_last_diagnosis e),
           image_path = image_path, segm_path = segm_path, latent_path = latent_path \<rparr>)"

fun convert_loop :: "conv_env \<Rightarrow> csv_row list \<Rightarrow> dataset_row list \<times> nat \<times> nat
    \<Rightarrow> dataset_row list \<times> nat \<times> nat" where
  \<comment> \<open>The loop of \<open>main\<close> over \<open>rows_in\<close>, on the state \<open>(out_rows, skipped, matched)\<close>.\<close>
  "convert_loop env [] st = st"
| "convert_loop env (r # rs) (out_rows, skipped, matched) =
     (case match_row env r of
        None \<Rightarrow> convert_loop env rs (out_rows, skipped + 1, matched)
      | Some warped \<Rightarrow> convert_loop env rs (out_rows @ [make_row env r warped], skipped, matched + 1))"

definition convert_main :: "conv_env \<Rightarrow> csv_row list \<Rightarrow> dataset_row list \<times> nat \<times> nat" where
  \<comment> \<open>The rows written to \<open>dataset.csv\<close> and the two counters printed at the end.\<close>
  "convert_main env rows_in = convert_loop env rows_in ([], 0, 0)"

section \<open>Dataset rows from the manifest (prepare\_csv\_build.py)\<close>

subsection \<open>Header resolution\<close>

text \<open>
  The patterns handed to \<open>ColFinder.find\<close> are built from literal text, optional groups
  \<open>(...)?\<close> and the anchors \<open>^\<close> and \<open>$\<close>; a compiled pattern is its syntax tree.
  \<open>rx_ends r s i\<close> lists the positions where a match of \<open>r\<close> that starts at position \<open>i\<close>
  of \<open>s\<close> can end. Canonical names hold no line break, so \<open>$\<close> is the end of the text.
\<close>

datatype rx = Lit string | Cat rx rx | Opt rx | Bol | Eol

fun rx_ends :: "rx \<Rightarrow> string \<Rightarrow> nat \<Rightarrow> nat list" where
  "rx_ends (Lit t) s i = (if take (length t) (drop i s) = t then [i + length t] else [])"
| "rx_ends (Cat a b) s i = concat (map (rx_ends b s) (rx_ends a s i))"
| "rx_ends (Opt a) s i = rx_ends a s i @ [i]"
| "rx_ends Bol s i = (if i = 0 then [i] else [])"
| "rx_ends Eol s i = (if i = length s then [i] else [])"

definition rx_fullmatch :: "rx \<Rightarrow> string \<Rightarrow> bool" where
  \<comment> \<open>\<open>rx.fullmatch(k)\<close> as a truth value\<close>
  "rx_fullmatch r s = (length s \<in> set (rx_ends r s 0))"

definition rx_search :: "rx \<Rightarrow> string \<Rightarrow> bool" where
  \<comment> \<open>\<open>rx.search(k)\<close> as a truth value\<close>
  "rx_search r s = list_ex (\<lambda>i. rx_ends r s i \<noteq> []) [0..<Suc (length s)]"

definition canon_key :: "string \<Rightarrow> string" where
  \<comment> \<open>\<open>re.sub(r"[^a-z0-9]", "", (h or '').lower())\<close>\<close>
  "canon_key h = filter (\<lambda>c. is_lower c \<or> is_digit c) (lower h)"

fun canon_add :: "(string \<times> string) list \<Rightarrow> string list \<Rightarrow> (string \<times> string) list" where
  \<comment> \<open>The loop of \<open>ColFinder.__init__\<close>; the dictionary \<open>canon\<close> keeps insertion order.\<close>
  "canon_add canon [] = canon"
| "canon_add canon (h # hs) =
     (let k = canon_key h in
      if k \<noteq> [] \<and> k \<notin> set (map fst canon) then canon_add (canon @ [(k, h)]) hs
      else canon_add canon hs)"

definition ColFinder :: "string list \<Rightarrow> (string \<times> string) list" where
  "ColFinder headers = canon_add [] headers"

fun find_col :: "(string \<times> string) list \<Rightarrow> rx list \<Rightarrow> string option" where
  \<comment> \<open>\<open>ColFinder.find\<close>: the outer loop over the patterns, the inner over \<open>canon.items()\<close>.\<close>
  "find_col canon [] = None"
| "find_col canon (pat # pats) =
     (case List.find (\<lambda>(k, orig). rx_fullmatch pat k \<or> rx_search pat k) canon of
        Some (k, orig) \<Rightarrow> Some orig
      | None \<Rightarrow> find_col canon pats)"

subsection \<open>Merging the manifest\<close>

record columns =
  man_uid_col :: "string option"
  man_subj_col :: "string option"
  adni_uid_col :: "string option"
  adni_subj_col :: "string option"
  sex_col :: "string option"
  age_col :: "string option"
  dx_col :: "string option"
  split_col :: "string option"

definition dget :: "csv_row \<Rightarrow> string option \<Rightarrow> string" where
  \<comment> \<open>\<open>row.get(col, '')\<close>; no row has the key \<open>None\<close>.\<close>
  "dget r col = (case col of None \<Rightarrow> [] | Some k \<Rightarrow> (case r k of None \<Rightarrow> [] | Some v \<Rightarrow> v))"

definition pick_first2 :: "string \<Rightarrow> string \<Rightarrow> string" where
  \<comment> \<open>\<open>pick_first(a, b)\<close>\<close>
  "pick_first2 a b = (if a \<noteq> [] then a else if b \<noteq> [] then b else [])"

definition strip_leading_I :: "string \<Rightarrow> string" where
  \<comment> \<open>\<open>re.sub(r'^[iI]', '', uid_raw)\<close>\<close>
  "strip_leading_I s = (case s of [] \<Rightarrow> [] | c # cs \<Rightarrow> if c = CHR ''i'' \<or> c = CHR ''I'' then cs else s)"

text \<open>
  What the merging loop reads and does not change: the resolved columns, the closure
  \<open>find_adni\<close> (the ADNI row chosen for a manifest row, if any), the index \<open>path_map\<close> of
  the preprocessed directory, and \<open>fmt_age\<close> for the floating-point step
  \<open>f"{float(age_raw)/100:.3f}"\<close> (empty when the text is empty or no number).
\<close>

record merge_env =
  cols :: columns
  find_adni :: "csv_row \<Rightarrow> csv_row option"
  path_map :: "string \<rightharpoonup> (string \<rightharpoonup> string)"
  fmt_age :: "string \<Rightarrow> string"

definition row_subj :: "merge_env \<Rightarrow> csv_row \<Rightarrow> string" where
  "row_subj env mr =
     (let ad = (case find_adni env mr of None \<Rightarrow> Map.empty | Some a \<Rightarrow> a) in
      pick_first2 (dget mr (man_subj_col (cols env))) (dget ad (adni_subj_col (cols env))))"

definition row_uid :: "merge_env \<Rightarrow> csv_row \<Rightarrow> string" where
  "row_uid env mr =
     (let ad = (case find_adni env mr of None \<Rightarrow> Map.empty | Some a \<Rightarrow> a) in
      strip_leading_I (pick_first2 (dget mr (man_uid_col (cols env))) (dget ad (adni_uid_col (cols env)))))"

definition path_of :: "merge_env \<Rightarrow> string \<Rightarrow> string \<Rightarrow> string" where
  \<comment> \<open>\<open>path_map.get(uid, {}).get(kind, '')\<close>\<close>
  "path_of env uid kind =
     (case path_map env uid of None \<Rightarrow> [] | Some d \<Rightarrow> (case d kind of None \<Rightarrow> [] | Some p \<Rightarrow> p))"

definition merge_row :: "merge_env \<Rightarrow> csv_row \<Rightarrow> dataset_row" where
  \<comment> \<open>The row appended for a manifest row that is kept.\<close>
  "merge_row env mr =
     (let ad = (case find_adni env mr of None \<Rightarrow> Map.empty | Some a \<Rightarrow> a);
          subj = row_subj env mr;
          uid = row_uid env mr;
          sx = sex_code (dget ad (sex_col (cols env)));
          ag = fmt_age env (dget ad (age_col (cols env)));
          dx = normalize_dx (dget ad (dx_col (cols env)));
          sp = (case split_col (cols env) of None \<Rightarrow> []
                | Some k \<Rightarrow> if k \<noteq> [] \<and> mr k \<noteq> None then dget mr (Some k)
                            else if k \<noteq> [] \<and> ad k \<noteq> None then dget ad (Some k) else [])
      in \<lparr> subject_id = subj, image_uid = uid, split = sp, sex = sx, age = ag,
           diagnosis = dx, last_diagnosis = dx,
           image_path = path_of env uid ''img'', segm_path = path_of env uid ''segm'',
           latent_path = [] \<rparr>)"

fun merge_loop :: "merge_env \<Rightarrow> csv_row list \<Rightarrow> dataset_row list \<Rightarrow> dataset_row list" where
  \<comment> \<open>The loop over \<open>manifest_rows\<close>; \<open>continue\<close> when subject id and image id are both empty.\<close>
  "merge_loop env [] out_rows = out_rows"
| "merge_loop env (mr # mrs) out_rows =
     (if row_subj env mr = [] \<and> row_uid env mr = [] then merge_loop env mrs out_rows
      else merge_loop env mrs (out_rows @ [merge_row env mr]))"

section \<open>Subject pairing (prepare\_csv.py)\<close>

definition gv :: "csv_row \<Rightarrow> string \<Rightarrow> string" where
  \<comment> \<open>\<open>r.get(k, "")\<close>\<close>
  "gv r k = (case r k of None \<Rightarrow> [] | Some v \<Rightarrow> v)"

definition fields10 :: "csv_row \<Rightarrow> dataset_row" where
  \<comment> \<open>\<open>{k: r.get(k, "") for k in FIELDS10}\<close>\<close>
  "fields10 r =
     \<lparr> subject_id = gv r ''subject_id'', image_uid = gv r ''image_uid'', split = gv r ''split'',
       sex = gv r ''sex'', age = gv r ''age'', diagnosis = gv r ''diagnosis'',
       last_diagnosis = gv r ''last_diagnosis'', image_path = gv r ''image_path'',
       segm_path = gv r ''segm_path'', latent_path = gv r ''latent_path'' \<rparr>"

text \<open>An enriched row \<open>rr\<close>: the ten fields and the parsed time under \<open>_dt\<close>.\<close>

type_synonym erow = "dataset_row \<times> datetime"

fun enrich :: "csv_row list \<Rightarrow> erow list" where
  "enrich [] = []"
| "enrich (r # rs) =
     (case parse_timestamp_from_texts [gv r ''image_path'', gv r ''image_uid''] of
        Some dt \<Rightarrow> (fields10 r, dt) # enrich rs
      | None \<Rightarrow> enrich rs)"

text \<open>
  The configuration of \<open>build_B\<close>. \<open>td_thresh\<close> is the value of
  \<open>timedelta(days=float(min_days) + float(min_years)*365.2425)\<close> in microseconds; the
  floating-point arithmetic that produces it lies outside the embedding. \<open>subject_regex\<close> is
  \<open>None\<close> for the empty pattern; otherwise it is the compiled pattern, as the function from a
  text to group 1 of its first match.
\<close>

record pair_cfg =
  pairing :: string
  td_thresh :: int
  same_split :: bool
  max_pairs_per_subject :: int
  subject_group :: string
  subject_regex :: "(string \<Rightarrow> string option) option"

definition subject_group_key :: "string \<Rightarrow> string \<Rightarrow> (string \<Rightarrow> string option) option \<Rightarrow> string" where
  "subject_group_key sid mode regex_pat =
     (let s = strip sid in
      if s = [] then []
      else if mode = ''exact'' then s
      else if mode = ''first_token'' then takeWhile (\<lambda>c. c \<noteq> CHR ''_'') s
      else if mode = ''regex'' \<and> regex_pat \<noteq> None then
        (case the regex_pat s of Some g \<Rightarrow> g | None \<Rightarrow> s)
      else s)"

fun group_add :: "(string \<times> 'a list) list \<Rightarrow> string \<Rightarrow> 'a \<Rightarrow> (string \<times> 'a list) list" where
  \<comment> \<open>\<open>groups.setdefault(key, []).append(r)\<close> on a dictionary in insertion order\<close>
  "group_add [] key r = [(key, [r])]"
| "group_add ((k, lst) # g) key r =
     (if k = key then (k, lst @ [r]) # g else (k, lst) # group_add g key r)"

definition row_key :: "pair_cfg \<Rightarrow> erow \<Rightarrow> string" where
  \<comment> \<open>The grouping key of a row; \<open>regex_pat\<close> is compiled only in mode \<open>regex\<close>.\<close>
  "row_key cfg r =
     (let regex_pat = (if subject_group cfg = ''regex'' then subject_regex cfg else None) in
      subject_group_key (subject_id (fst r)) (subject_group cfg) regex_pat)"

definition group_rows :: "pair_cfg \<Rightarrow> erow list \<Rightarrow> (string \<times> erow list) list" where
  "group_rows cfg enriched = foldl (\<lambda>groups r. group_add groups (row_key cfg r) r) [] enriched"

definition days_before_year :: "nat \<Rightarrow> int" where
  "days_before_year y = (let y1 = int y - 1 in y1 * 365 + y1 div 4 - y1 div 100 + y1 div 400)"

definition days_before_month :: "nat \<Rightarrow> nat \<Rightarrow> int" where
  "days_before_month y m = int (sum_list (map (days_in_month y) [1..<m]))"

definition dt_seconds :: "datetime \<Rightarrow> int" where
  \<comment> \<open>Seconds since the start of day 0 of the proleptic calendar: \<open>toordinal\<close> and the time of
      day. The difference of two date-times is the difference of these numbers.\<close>
  "dt_seconds dt = (case dt of (y, m, d, hh, mm, ss) \<Rightarrow>
     (days_before_year y + days_before_month y m + int d) * 86400
       + int hh * 3600 + int mm * 60 + int ss)"

definition gap_below :: "pair_cfg \<Rightarrow> erow \<Rightarrow> erow \<Rightarrow> bool" where
  \<comment> \<open>\<open>(B["_dt"] - A["_dt"]) < td_thresh\<close>, both sides in microseconds\<close>
  "gap_below cfg A B = ((dt_seconds (snd B) - dt_seconds (snd A)) * 1000000 < td_thresh cfg)"

definition edge_rows :: "pair_cfg \<Rightarrow> erow list \<Rightarrow> dataset_row list" where
  \<comment> \<open>The branch \<open>pairing == "edge"\<close> on the sorted group: \<open>lst[0]\<close> and \<open>lst[-1]\<close>.\<close>
  "edge_rows cfg lst =
     (case lst of [] \<Rightarrow> []
      | A # rest \<Rightarrow>
         (let B = last (A # rest) in
          if same_split cfg \<and> split (fst A) \<noteq> split (fst B) then []
          else if gap_below cfg A B then []
          else [fst A, fst B]))"

fun scan_j :: "pair_cfg \<Rightarrow> erow \<Rightarrow> erow list \<Rightarrow> int \<Rightarrow> dataset_row list \<times> int" where
  \<comment> \<open>The inner loop over \<open>j\<close> for a fixed \<open>lst[i]\<close>: the rows it appends and the new \<open>count\<close>.
      It stops early at its \<open>break\<close>.\<close>
  "scan_j cfg Ai [] count = ([], count)"
| "scan_j cfg Ai (Bj # rest) count =
     (if same_split cfg \<and> split (fst Ai) \<noteq> split (fst Bj) then scan_j cfg Ai rest count
      else if gap_below cfg Ai Bj then scan_j cfg Ai rest count
      else if max_pairs_per_subject cfg > 0 \<and> count + 1 \<ge> max_pairs_per_subject cfg
           then ([fst Ai, fst Bj], count + 1)
      else (case scan_j cfg Ai rest (count + 1) of (rs, c) \<Rightarrow> (fst Ai # fst Bj # rs, c)))"

fun scan_i :: "pair_cfg \<Rightarrow> erow list \<Rightarrow> int \<Rightarrow> dataset_row list" where
  \<comment> \<open>The outer loop over \<open>i\<close>, with its own \<open>break\<close> after the inner loop.\<close>
  "scan_i cfg [] count = []"
| "scan_i cfg (Ai # rest) count =
     (case scan_j cfg Ai rest count of
        (rs, c) \<Rightarrow>
          if max_pairs_per_subject cfg > 0 \<and> c \<ge> max_pairs_per_subject cfg then rs
          else rs @ scan_i cfg rest c)"

definition process_group :: "pair_cfg \<Rightarrow> erow list \<Rightarrow> dataset_row list" where
  \<comment> \<open>One round of \<open>for key in keys\<close>: the rows appended to \<open>b_rows\<close> for the group.
      \<open>list.sort(key=...)\<close> is stable, as \<open>sort_key\<close> is.\<close>
  "process_group cfg lst0 =
     (if length lst0 < 2 then []
      else (let lst = sort_key snd lst0 in
            if pairing cfg = ''edge'' then edge_rows cfg lst else scan_i cfg lst 0))"

definition build_B :: "pair_cfg \<Rightarrow> csv_row list \<Rightarrow> dataset_row list" where
  "build_B cfg rows =
     concat (map (\<lambda>(key, lst). process_group cfg lst) (group_rows cfg (enrich rows)))"

text \<open>
  The pairing mode \<open>all\<close> as the specification words it, for comparison with \<open>scan_i\<close>:
  once the cap is reached the scan over \<open>j\<close> stops for the current \<open>i\<close>, and the scan goes on
  with the next \<open>i\<close>.
\<close>

fun scan_i_spec :: "pair_cfg \<Rightarrow> erow list \<Rightarrow> int \<Rightarrow> dataset_row list" where
  "scan_i_spec cfg [] count = []"
| "scan_i_spec cfg (Ai # rest) count =
     (case scan_j cfg Ai rest count of (rs, c) \<Rightarrow> rs @ scan_i_spec cfg rest c)"

text \<open>
  Vocabulary for the statements about \<open>B.csv\<close>: the two constraints on a pair, the rows of
  a list of pairs written one after the other, and a list of rows read back two by two.
\<close>

definition accepted :: "pair_cfg \<Rightarrow> erow \<Rightarrow> erow \<Rightarrow> bool" where
  "accepted cfg A B =
     (\<not> (same_split cfg \<and> split (fst A) \<noteq> split (fst B)) \<and> \<not> gap_below cfg A B)"

definition flat_pairs :: "('a \<times> 'a) list \<Rightarrow> 'a list" where
  "flat_pairs ps = concat (map (\<lambda>(a, b). [a, b]) ps)"

fun pairs_of :: "'a list \<Rightarrow> ('a \<times> 'a) list" where
  "pairs_of (a # b # rest) = (a, b) # pairs_of rest"
| "pairs_of [a] = []"
| "pairs_of [] = []"

definition row_time :: "dataset_row \<Rightarrow> datetime option" where
  \<comment> \<open>The time \<open>build_B\<close> derives for a row.\<close>
  "row_time r = parse_timestamp_from_texts [image_path r, image_uid r]"

text \<open>
  The qualifying pairs of a sorted group in scan order: for each earlier row, the later rows
  that satisfy the two constraints.
\<close>

definition quals :: "pair_cfg \<Rightarrow> erow \<Rightarrow> erow list \<Rightarrow> (dataset_row \<times> dataset_row) list" where
  "quals cfg Ai rest = map (\<lambda>Bj. (fst Ai, fst Bj)) (filter (accepted cfg Ai) rest)"

fun all_quals :: "pair_cfg \<Rightarrow> erow list \<Rightarrow> (dataset_row \<times> dataset_row) list" where
  "all_quals cfg [] = []"
| "all_quals cfg (Ai # rest) = quals cfg Ai rest @ all_quals cfg rest"

fun in_pairs :: "('a \<Rightarrow> 'a \<Rightarrow> bool) \<Rightarrow> 'a list \<Rightarrow> bool" where
  \<comment> \<open>The list consists of consecutive pairs, each of them in the relation.\<close>
  "in_pairs Q [] = True"
| "in_pairs Q [a] = False"
| "in_pairs Q (a # b # rest) = (Q a b \<and> in_pairs Q rest)"

definition pair_ok :: "pair_cfg \<Rightarrow> dataset_row \<Rightarrow> dataset_row \<Rightarrow> bool" where
  \<comment> \<open>An accepted pair as it stands in the output: both rows have a time, the first is not
      later than the second, and the two constraints hold.\<close>
  "pair_ok cfg a b = (\<exists>ta tb. row_time a = Some ta \<and> row_time b = Some tb \<and> ta \<le> tb \<and>
      accepted cfg (a, ta) (b, tb))"

section \<open>Automatic split (prepare\_csv\_build.py)\<close>

definition by_subj_of :: "dataset_row list \<Rightarrow> (string \<times> nat list) list" where
  \<comment> \<open>\<open>for i, r in enumerate(out_rows): by_subj.setdefault(r['subject_id'], []).append(i)\<close>\<close>
  "by_subj_of out_rows =
     foldl (\<lambda>by_subj i. group_add by_subj (subject_id (out_rows ! i)) i) [] [0..<length out_rows]"

definition split_label :: "nat \<Rightarrow> nat \<Rightarrow> string" where
  \<comment> \<open>\<open>n_tr = int(0.8*n); n_val = int(0.1*n)\<close> and the choice of \<open>sp\<close> for position \<open>j\<close>.
      For every length a list can have, the two products round to \<open>8n/10\<close> and \<open>n/10\<close> cut
      to whole numbers.\<close>
  "split_label n j =
     (let n_tr = (8 * n) div 10; n_val = n div 10 in
      if j < n_tr then ''train'' else if j < n_tr + n_val then ''val'' else ''test'')"

fun assign :: "nat \<Rightarrow> nat \<Rightarrow> nat list \<Rightarrow> dataset_row list \<Rightarrow> dataset_row list" where
  \<comment> \<open>\<open>for j, ii in enumerate(idxs): ... if not out_rows[ii]['split']: out_rows[ii]['split'] = sp\<close>,
      from position \<open>j\<close> on. The indices come from \<open>enumerate(out_rows)\<close>, so none is out of
      range.\<close>
  "assign n j [] out_rows = out_rows"
| "assign n j (ii # idxs) out_rows =
     assign n (Suc j) idxs
       (if split (out_rows ! ii) = [] then out_rows[ii := (out_rows ! ii)\<lparr>split := split_label n j\<rparr>]
        else out_rows)"


definition auto_split :: "(string \<Rightarrow> nat list \<Rightarrow> nat list) \<Rightarrow> dataset_row list \<Rightarrow> dataset_row list" where
  \<comment> \<open>The block under \<open>if auto_split\<close>. \<open>shuffle subj idxs\<close> is the order in which
      \<open>random.shuffle\<close> leaves the index list of the subject; the state of the random
      generator lies outside the embedding.\<close>
  "auto_split shuffle out_rows =
     foldl (\<lambda>rows (subj, idxs). let p = shuffle subj idxs in assign (length p) 0 p rows)
       out_rows (by_subj_of out_rows)"

definition build_dataset :: "merge_env \<Rightarrow> bool \<Rightarrow> (string \<Rightarrow> nat list \<Rightarrow> nat list) \<Rightarrow> csv_row list
    \<Rightarrow> dataset_row list" where
  "build_dataset env do_split shuffle manifest_rows =
     (let out_rows = merge_loop env manifest_rows [] in
      if do_split then auto_split shuffle out_rows else out_rows)"

chapter \<open>Properties\<close>

section \<open>String helpers\<close>











section \<open>Sex normalisation\<close>





section \<open>Timestamp extraction\<close>

lemma in_class_digit: "in_class c cl \<Longrightarrow> snd cl \<le> 9 \<Longrightarrow> is_digit c"
  by (auto simp: in_class_def is_digit_def Let_def)





lemma num_of_2: "num_of [a, b] = 10 * digit_val a + digit_val b"
  by (simp add: num_of_def)

lemma num_of_4: "num_of [a, b, c, d] = 1000 * digit_val a + 100 * digit_val b + 10 * digit_val c + digit_val d"
  by (simp add: num_of_def)


lemma in_class_iff: "is_digit c \<Longrightarrow> in_class c (lo, hi) = (lo \<le> digit_val c \<and> digit_val c \<le> hi)"
  by (auto simp: in_class_def is_digit_def digit_val_def Let_def)




lemma re_search_Some:
  "re_search cls prevd t = Some r \<Longrightarrow> list_all2 in_class r cls"
  by (induction t arbitrary: prevd) (auto simp: match_here_def split: if_splits simp del: take_Cons')

lemma try4_year:
  assumes "re_search Y4 prevd t = Some y"
  shows "strptime14 (y @ ''0101000000'') = Some (num_of y, 1, 1, 0, 0, 0)"
proof -
  from assms have m: "list_all2 in_class y Y4" by (rule re_search_Some)
  then have "length y = 4" by (simp add: list_all2_lengthD Y4_def)
  then obtain a b c d where y: "y = [a, b, c, d]"
    by (auto simp add: numeral_eq_Suc length_Suc_conv)
  from m y have cl: "in_class a (1, 2)" "in_class b (0, 9)" "in_class c (0, 9)" "in_class d (0, 9)"
    by (simp_all add: Y4_def)
  then have dg: "is_digit a" "is_digit b" "is_digit c" "is_digit d"
    by (auto intro: in_class_digit)
  from cl dg have r: "1 \<le> digit_val a" "digit_val a \<le> 2" "digit_val b \<le> 9" "digit_val c \<le> 9"
      "digit_val d \<le> 9"
    by (simp_all add: in_class_iff)
  then have yr: "1 \<le> num_of [a, b, c, d]" "num_of [a, b, c, d] \<le> 9999"
    unfolding num_of_4 by linarith+
  have z: "is_digit CHR ''0''" "is_digit CHR ''1''" "digit_val CHR ''0'' = 0" "digit_val CHR ''1'' = 1"
    by (simp_all add: is_digit_def digit_val_def)
  show ?thesis
    unfolding strptime14_def y using dg yr z
    by (simp add: Let_def valid_datetime_def days_in_month_def num_of_2)
qed





section \<open>File candidate matcher\<close>

lemma score_candidate_floor: "(-1, -1) < score_candidate p a b c d"
  unfolding score_candidate_def Let_def by (simp add: less_prod_def)

lemma best_loop_result:
  "best_loop f b s xs = (b', s') \<Longrightarrow>
     (b' = b \<and> s' = s \<and> (\<forall>j<length xs. f (xs ! j) \<le> s)) \<or>
     (\<exists>i<length xs. b' = Some (xs ! i) \<and> s' = f (xs ! i) \<and> s < f (xs ! i) \<and>
        (\<forall>j<i. f (xs ! j) < f (xs ! i)) \<and> (\<forall>j<length xs. f (xs ! j) \<le> f (xs ! i)))"
proof (induction xs arbitrary: b s)
  case Nil
  then show ?case by simp
next
  case (Cons c cs)
  show ?case
  proof (cases "s < f c")
    case True
    with Cons.prems have r: "best_loop f (Some c) (f c) cs = (b', s')" by simp
    from Cons.IH [OF r] show ?thesis
    proof
      assume a: "b' = Some c \<and> s' = f c \<and> (\<forall>j<length cs. f (cs ! j) \<le> f c)"
      have "\<forall>j<length (c # cs). f ((c # cs) ! j) \<le> f c"
        using a by (auto simp: nth_Cons split: nat.splits)
      with a True have "0 < length (c # cs) \<and> b' = Some ((c # cs) ! 0) \<and> s' = f ((c # cs) ! 0) \<and>
          s < f ((c # cs) ! 0) \<and> (\<forall>j<0. f ((c # cs) ! j) < f ((c # cs) ! 0)) \<and>
          (\<forall>j<length (c # cs). f ((c # cs) ! j) \<le> f ((c # cs) ! 0))"
        by simp
      then show ?thesis by blast
    next
      assume "\<exists>i<length cs. b' = Some (cs ! i) \<and> s' = f (cs ! i) \<and> f c < f (cs ! i) \<and>
        (\<forall>j<i. f (cs ! j) < f (cs ! i)) \<and> (\<forall>j<length cs. f (cs ! j) \<le> f (cs ! i))"
      then obtain i where i: "i < length cs" "b' = Some (cs ! i)" "s' = f (cs ! i)" "f c < f (cs ! i)"
        "\<forall>j<i. f (cs ! j) < f (cs ! i)" "\<forall>j<length cs. f (cs ! j) \<le> f (cs ! i)" by blast
      have "\<forall>j<Suc i. f ((c # cs) ! j) < f (cs ! i)"
        using i(4,5) by (auto simp: nth_Cons split: nat.splits)
      moreover have "\<forall>j<length (c # cs). f ((c # cs) ! j) \<le> f (cs ! i)"
        using i(4,6) by (auto simp: nth_Cons split: nat.splits)
      moreover have "s < f (cs ! i)" using True i(4) by simp
      ultimately have "Suc i < length (c # cs) \<and> b' = Some ((c # cs) ! Suc i) \<and>
          s' = f ((c # cs) ! Suc i) \<and> s < f ((c # cs) ! Suc i) \<and>
          (\<forall>j<Suc i. f ((c # cs) ! j) < f ((c # cs) ! Suc i)) \<and>
          (\<forall>j<length (c # cs). f ((c # cs) ! j) \<le> f ((c # cs) ! Suc i))"
        using i(1,2,3) by simp
      then show ?thesis by blast
    qed
  next
    case False
    then have le: "f c \<le> s" by simp
    from False Cons.prems have r: "best_loop f b s cs = (b', s')" by simp
    from Cons.IH [OF r] show ?thesis
    proof
      assume a: "b' = b \<and> s' = s \<and> (\<forall>j<length cs. f (cs ! j) \<le> s)"
      have "\<forall>j<length (c # cs). f ((c # cs) ! j) \<le> s"
        using a le by (auto simp: nth_Cons split: nat.splits)
      with a show ?thesis by blast
    next
      assume "\<exists>i<length cs. b' = Some (cs ! i) \<and> s' = f (cs ! i) \<and> s < f (cs ! i) \<and>
        (\<forall>j<i. f (cs ! j) < f (cs ! i)) \<and> (\<forall>j<length cs. f (cs ! j) \<le> f (cs ! i))"
      then obtain i where i: "i < length cs" "b' = Some (cs ! i)" "s' = f (cs ! i)" "s < f (cs ! i)"
        "\<forall>j<i. f (cs ! j) < f (cs ! i)" "\<forall>j<length cs. f (cs ! j) \<le> f (cs ! i)" by blast
      have c: "f c < f (cs ! i)" using le i(4) by simp
      have "\<forall>j<Suc i. f ((c # cs) ! j) < f (cs ! i)"
        using c i(5) by (auto simp: nth_Cons split: nat.splits)
      moreover have "\<forall>j<length (c # cs). f ((c # cs) ! j) \<le> f (cs ! i)"
        using c i(6) by (auto simp: nth_Cons split: nat.splits)
      ultimately have "Suc i < length (c # cs) \<and> b' = Some ((c # cs) ! Suc i) \<and>
          s' = f ((c # cs) ! Suc i) \<and> s < f ((c # cs) ! Suc i) \<and>
          (\<forall>j<Suc i. f ((c # cs) ! j) < f ((c # cs) ! Suc i)) \<and>
          (\<forall>j<length (c # cs). f ((c # cs) ! j) \<le> f ((c # cs) ! Suc i))"
        using i(1,2,3,4) by simp
      then show ?thesis by blast
    qed
  qed
qed

lemma best_loop_first_max:
  assumes fl: "\<And>c. (-1, -1) < f c" and ne: "xs \<noteq> []"
  shows "\<exists>i<length xs. best_loop f None (-1, -1) xs = (Some (xs ! i), f (xs ! i)) \<and>
        (\<forall>j<i. f (xs ! j) < f (xs ! i)) \<and> (\<forall>j<length xs. f (xs ! j) \<le> f (xs ! i))"
proof -
  obtain b' s' where r: "best_loop f None (-1, -1) xs = (b', s')" by (cases "best_loop f None (-1, -1) xs")
  from best_loop_result [OF r] show ?thesis
  proof
    assume "b' = None \<and> s' = (-1, -1) \<and> (\<forall>j<length xs. f (xs ! j) \<le> (-1, -1))"
    then have "f (xs ! 0) \<le> (-1, -1)" using ne by simp
    with fl [of "xs ! 0"] show ?thesis by simp
  next
    assume "\<exists>i<length xs. b' = Some (xs ! i) \<and> s' = f (xs ! i) \<and> (-1, -1) < f (xs ! i) \<and>
        (\<forall>j<i. f (xs ! j) < f (xs ! i)) \<and> (\<forall>j<length xs. f (xs ! j) \<le> f (xs ! i))"
    with r show ?thesis by auto
  qed
qed


text \<open>
  C2. The selection step of the matcher, for every candidate pool and every row. An empty
  pool gives no match. A pool of exactly one candidate gives that candidate, whatever its
  score. In a pool of two or more candidates whose primary scores are all at most 0, the
  answer is no match. In a pool of two or more candidates of which one has a positive
  primary score, the answer is the candidate at the first position whose score tuple is
  maximal: every earlier candidate scores strictly less, every candidate scores at most as
  much.
\<close>
theorem choose_best_selection:
  "(cands = [] \<longrightarrow> choose_best cands sid iid ser vis = None) \<and>
   (\<forall>c. cands = [c] \<longrightarrow> choose_best cands sid iid ser vis = Some c) \<and>
   (2 \<le> length cands \<and> (\<forall>c\<in>set cands. fst (score_candidate c sid iid ser vis) \<le> 0)
      \<longrightarrow> choose_best cands sid iid ser vis = None) \<and>
   (2 \<le> length cands \<and> (\<exists>c\<in>set cands. 0 < fst (score_candidate c sid iid ser vis))
      \<longrightarrow> (\<exists>i<length cands. choose_best cands sid iid ser vis = Some (cands ! i) \<and>
             (\<forall>j<i. score_candidate (cands ! j) sid iid ser vis
                      < score_candidate (cands ! i) sid iid ser vis) \<and>
             (\<forall>j<length cands. score_candidate (cands ! j) sid iid ser vis
                      \<le> score_candidate (cands ! i) sid iid ser vis)))"
proof (cases "cands = []")
  case True
  then show ?thesis by (simp add: choose_best_def)
next
  case False
  let ?f = "\<lambda>c. score_candidate c sid iid ser vis"
  from best_loop_first_max [of ?f cands, OF score_candidate_floor False]
  obtain i where i: "i < length cands"
      "best_loop ?f None (-1, -1) cands = (Some (cands ! i), ?f (cands ! i))"
      "\<forall>j<i. ?f (cands ! j) < ?f (cands ! i)" "\<forall>j<length cands. ?f (cands ! j) \<le> ?f (cands ! i)"
    by blast
  have cb: "choose_best cands sid iid ser vis =
      (if length cands > 1 \<and> fst (?f (cands ! i)) \<le> 0 then None else Some (cands ! i))"
    using False i(2) by (simp add: choose_best_def)
  have one: "choose_best cands sid iid ser vis = Some c" if "cands = [c]" for c
    using that i(1) cb by simp
  have none: "choose_best cands sid iid ser vis = None"
    if "2 \<le> length cands" "\<forall>c\<in>set cands. fst (?f c) \<le> 0"
  proof -
    have "fst (?f (cands ! i)) \<le> 0" using that(2) i(1) by simp
    with that(1) cb show ?thesis by simp
  qed
  have some: "\<exists>i<length cands. choose_best cands sid iid ser vis = Some (cands ! i) \<and>
             (\<forall>j<i. ?f (cands ! j) < ?f (cands ! i)) \<and> (\<forall>j<length cands. ?f (cands ! j) \<le> ?f (cands ! i))"
    if "\<exists>c\<in>set cands. 0 < fst (?f c)"
  proof -
    from that obtain j where j: "j < length cands" "0 < fst (?f (cands ! j))"
      by (auto simp: in_set_conv_nth)
    from i(4) j(1) have "?f (cands ! j) \<le> ?f (cands ! i)" by simp
    then have "fst (?f (cands ! j)) \<le> fst (?f (cands ! i))"
      by (auto simp: less_eq_prod_def)
    with j(2) have "0 < fst (?f (cands ! i))" by simp
    with cb have "choose_best cands sid iid ser vis = Some (cands ! i)" by simp
    with i(1,3,4) show ?thesis by blast
  qed
  from False one none some show ?thesis by blast
qed

theorem choose_best_selection_witness:
  "choose_best [[''/'', ''A'', ''123'', ''img.nii.gz''], [''/'', ''A'', ''999'', ''img.nii.gz'']]
     ''77'' [] [] [] = None \<and>
   choose_best [[''/'', ''A'', ''999'', ''img.nii.gz'']] ''77'' [] [] []
     = Some [''/'', ''A'', ''999'', ''img.nii.gz'']"
proof -
  let ?p = "[''/'', ''A'', ''123'', ''img.nii.gz'']" and ?q = "[''/'', ''A'', ''999'', ''img.nii.gz'']"
  have h: "2 \<le> length [?p, ?q] \<and> (\<forall>c\<in>set [?p, ?q]. fst (score_candidate c ''77'' [] [] []) \<le> 0)"
    by code_simp
  from choose_best_selection [of "[?p, ?q]" "''77''" "[]" "[]" "[]"] h
  have a: "choose_best [?p, ?q] ''77'' [] [] [] = None" by blast
  from choose_best_selection [of "[?q]" "''77''" "[]" "[]" "[]"]
  have b: "choose_best [?q] ''77'' [] [] [] = Some ?q" by blast
  from a b show ?thesis by blast
qed


section \<open>Dataset row builders\<close>

lemma convert_loop_acc:
  "convert_loop env rs (out_rows, skipped, matched) =
     (out_rows @ concat (map (\<lambda>r. case match_row env r of None \<Rightarrow> [] | Some w \<Rightarrow> [make_row env r w]) rs),
      skipped + length (filter (\<lambda>r. match_row env r = None) rs),
      matched + length (filter (\<lambda>r. match_row env r \<noteq> None) rs))"
  by (induction rs arbitrary: out_rows skipped matched) (auto split: option.splits)

lemma merge_loop_acc:
  "merge_loop env mrs out_rows =
     out_rows @ map (merge_row env) (filter (\<lambda>mr. \<not> (row_subj env mr = [] \<and> row_uid env mr = [])) mrs)"
  by (induction mrs arbitrary: out_rows) auto

text \<open>
  C6, as the code has it. In the converter of the source CSV a row for which the matcher
  finds no path adds one to \<open>skipped\<close> (the count printed at the end) and contributes no
  output row; a matched row contributes exactly one row, so output rows and skipped rows add
  up to the rows read. In the manifest-merge builder a row is left out exactly when its
  subject id and its image id (after the leading \<open>I\<close> is removed) are both empty; every
  other row is emitted, in order, and when the index has no entry for its image id the image
  and segmentation paths of the emitted row are empty.
\<close>
theorem unmatched_rows_skipped:
  "convert_main env rows_in =
     (concat (map (\<lambda>r. case match_row env r of None \<Rightarrow> [] | Some w \<Rightarrow> [make_row env r w]) rows_in),
      length (filter (\<lambda>r. match_row env r = None) rows_in),
      length (filter (\<lambda>r. match_row env r \<noteq> None) rows_in)) \<and>
   length (fst (convert_main env rows_in)) + fst (snd (convert_main env rows_in)) = length rows_in \<and>
   merge_loop menv manifest_rows [] =
     map (merge_row menv)
       (filter (\<lambda>mr. \<not> (row_subj menv mr = [] \<and> row_uid menv mr = [])) manifest_rows) \<and>
   subject_id (merge_row menv mr) = row_subj menv mr \<and>
   image_uid (merge_row menv mr) = row_uid menv mr \<and>
   (path_map menv (row_uid menv mr) = None \<longrightarrow>
      image_path (merge_row menv mr) = [] \<and> segm_path (merge_row menv mr) = [])"
proof -
  let ?g = "\<lambda>r. case match_row env r of None \<Rightarrow> [] | Some w \<Rightarrow> [make_row env r w]"
  have a: "convert_main env rows_in =
     (concat (map ?g rows_in), length (filter (\<lambda>r. match_row env r = None) rows_in),
      length (filter (\<lambda>r. match_row env r \<noteq> None) rows_in))"
    by (simp add: convert_main_def convert_loop_acc)
  have "length (concat (map ?g rs)) + length (filter (\<lambda>r. match_row env r = None) rs) = length rs" for rs
    by (induction rs) (auto split: option.splits)
  with a have b: "length (fst (convert_main env rows_in)) + fst (snd (convert_main env rows_in)) = length rows_in"
    by simp
  have c: "merge_loop menv manifest_rows [] =
     map (merge_row menv) (filter (\<lambda>mr. \<not> (row_subj menv mr = [] \<and> row_uid menv mr = [])) manifest_rows)"
    by (simp add: merge_loop_acc)
  have d: "subject_id (merge_row menv mr) = row_subj menv mr" "image_uid (merge_row menv mr) = row_uid menv mr"
    by (simp_all add: merge_row_def Let_def)
  have e: "image_path (merge_row menv mr) = [] \<and> segm_path (merge_row menv mr) = []"
    if "path_map menv (row_uid menv mr) = None"
    using that by (simp add: merge_row_def Let_def path_of_def)
  from a b c d e show ?thesis by blast
qed


theorem unmatched_rows_skipped_witness:
  "image_path (merge_row
      \<lparr> cols = \<lparr> man_uid_col = Some ''image_id'', man_subj_col = Some ''subject_id'',
                 adni_uid_col = None, adni_subj_col = None, sex_col = None, age_col = None,
                 dx_col = None, split_col = None \<rparr>,
        find_adni = (\<lambda>mr. None), path_map = Map.empty, fmt_age = (\<lambda>a. []) \<rparr>
      [''subject_id'' \<mapsto> ''S1'', ''image_id'' \<mapsto> ''I77'']) = [] \<and>
   segm_path (merge_row
      \<lparr> cols = \<lparr> man_uid_col = Some ''image_id'', man_subj_col = Some ''subject_id'',
                 adni_uid_col = None, adni_subj_col = None, sex_col = None, age_col = None,
                 dx_col = None, split_col = None \<rparr>,
        find_adni = (\<lambda>mr. None), path_map = Map.empty, fmt_age = (\<lambda>a. []) \<rparr>
      [''subject_id'' \<mapsto> ''S1'', ''image_id'' \<mapsto> ''I77'']) = []"
proof -
  let ?menv = "\<lparr> cols = \<lparr> man_uid_col = Some ''image_id'', man_subj_col = Some ''subject_id'',
                 adni_uid_col = None, adni_subj_col = None, sex_col = None, age_col = None,
                 dx_col = None, split_col = None \<rparr>,
        find_adni = (\<lambda>mr. None), path_map = Map.empty, fmt_age = (\<lambda>a. []) \<rparr>"
  let ?mr = "[''subject_id'' \<mapsto> ''S1'', ''image_id'' \<mapsto> ''I77'']"
  have h: "path_map ?menv (row_uid ?menv ?mr) = None" by simp
  from unmatched_rows_skipped
    [of "\<lparr> subj2warped = [], meta = Map.empty, fs_exists = (\<lambda>p. False), fs_resolve = (\<lambda>p. p) \<rparr>"
        "[]" ?menv "[]" ?mr] h show ?thesis by blast
qed

text \<open>
  C6 as stated fails for the converter: the row of subject \<open>S1\<close> meets an index with two
  files of other subjects, both score 0, the matcher rejects them as ambiguous, and the row is
  counted as skipped while the output stays empty. It is not emitted with empty path fields.
\<close>
theorem unmatched_row_not_emitted:
  "match_row
     \<lparr> subj2warped = [(''S2'', [[''/'', ''pre'', ''S2'', ''turboprep_Warped.nii.gz'']]),
                      (''S3'', [[''/'', ''pre'', ''S3'', ''turboprep_Warped.nii.gz'']])],
       meta = Map.empty, fs_exists = (\<lambda>p. False), fs_resolve = (\<lambda>p. p) \<rparr>
     [''subject_id'' \<mapsto> ''S1''] = None \<and>
   convert_main
     \<lparr> subj2warped = [(''S2'', [[''/'', ''pre'', ''S2'', ''turboprep_Warped.nii.gz'']]),
                      (''S3'', [[''/'', ''pre'', ''S3'', ''turboprep_Warped.nii.gz'']])],
       meta = Map.empty, fs_exists = (\<lambda>p. False), fs_resolve = (\<lambda>p. p) \<rparr>
     [[''subject_id'' \<mapsto> ''S1'']] = ([], 1, 0)"
proof -
  let ?env = "\<lparr> subj2warped = [(''S2'', [[''/'', ''pre'', ''S2'', ''turboprep_Warped.nii.gz'']]),
                      (''S3'', [[''/'', ''pre'', ''S3'', ''turboprep_Warped.nii.gz'']])],
       meta = Map.empty, fs_exists = (\<lambda>p. False), fs_resolve = (\<lambda>p. p) \<rparr>"
  have n: "get_norm [''subject_id'' \<mapsto> ''S1''] ''subject_id'' = ''S1''"
          "get_norm [''subject_id'' \<mapsto> ''S1''] ''image_id'' = []"
          "get_norm [''subject_id'' \<mapsto> ''S1''] ''series_id'' = []"
          "get_norm [''subject_id'' \<mapsto> ''S1''] ''image_visit'' = []"
    unfolding get_norm_def normalize_def by (simp, code_simp)+
  have c: "collect_cands (subj2warped ?env) ''S1'' [] =
      [[''/'', ''pre'', ''S2'', ''turboprep_Warped.nii.gz''], [''/'', ''pre'', ''S3'', ''turboprep_Warped.nii.gz'']]"
    by (simp add: collect_cands_def)
  have b: "choose_best [[''/'', ''pre'', ''S2'', ''turboprep_Warped.nii.gz''],
       [''/'', ''pre'', ''S3'', ''turboprep_Warped.nii.gz'']] ''S1'' [] [] [] = None"
    by code_simp
  have m: "match_row ?env [''subject_id'' \<mapsto> ''S1''] = None"
    unfolding match_row_def n c by (rule b)
  then show ?thesis by (simp add: convert_main_def)
qed

text \<open>
  C8: the latent path is the image path with its \<open>.nii.gz\<close> or \<open>.nii\<close> suffix replaced
  by \<open>_latent.npz\<close>, the rest unchanged. The code uses \<open>str.replace\<close>, which rewrites
  every occurrence. With a subject directory named \<open>S1.nii\<close> the converter matches the image
  \<open>/pre/S1.nii/turboprep_Warped.nii.gz\<close> and writes a latent path whose directory part is
  changed too.
\<close>
theorem latent_path_replaces_everywhere:
  "latent_path_of ''/pre/S1.nii/turboprep_Warped.nii.gz''
     = ''/pre/S1_latent.npz/turboprep_Warped_latent.npz'' \<and>
   map (\<lambda>r. (image_path r, latent_path r)) (fst (convert_main
     \<lparr> subj2warped = [(''S1.nii'', [[''/'', ''pre'', ''S1.nii'', ''turboprep_Warped.nii.gz'']])],
       meta = Map.empty, fs_exists = (\<lambda>p. False), fs_resolve = (\<lambda>p. p) \<rparr>
     [[''subject_id'' \<mapsto> ''S1.nii'']]))
     = [(''/pre/S1.nii/turboprep_Warped.nii.gz'', ''/pre/S1_latent.npz/turboprep_Warped_latent.npz'')]"
proof -
  let ?env = "\<lparr> subj2warped = [(''S1.nii'', [[''/'', ''pre'', ''S1.nii'', ''turboprep_Warped.nii.gz'']])],
       meta = Map.empty, fs_exists = (\<lambda>p. False), fs_resolve = (\<lambda>p. p) \<rparr>"
  let ?w = "[''/'', ''pre'', ''S1.nii'', ''turboprep_Warped.nii.gz'']"
  let ?r = "[''subject_id'' \<mapsto> ''S1.nii'']"
  have l: "latent_path_of ''/pre/S1.nii/turboprep_Warped.nii.gz''
     = ''/pre/S1_latent.npz/turboprep_Warped_latent.npz''" by code_simp
  have n: "get_norm ?r ''subject_id'' = ''S1.nii''" "get_norm ?r ''image_id'' = []"
          "get_norm ?r ''series_id'' = []" "get_norm ?r ''image_visit'' = []"
    unfolding get_norm_def normalize_def by (simp, code_simp)+
  have c: "collect_cands (subj2warped ?env) ''S1.nii'' [] = [?w]"
    by (simp add: collect_cands_def)
  have b: "choose_best [?w] ''S1.nii'' [] [] [] = Some ?w" by code_simp
  have m: "match_row ?env ?r = Some ?w" unfolding match_row_def n c by (rule b)
  have p: "as_posix ?w = ''/pre/S1.nii/turboprep_Warped.nii.gz''" by code_simp
  have "image_path (make_row ?env ?r ?w) = ''/pre/S1.nii/turboprep_Warped.nii.gz''"
       "latent_path (make_row ?env ?r ?w) = ''/pre/S1_latent.npz/turboprep_Warped_latent.npz''"
    by (simp_all add: make_row_def Let_def p l)
  with m l show ?thesis by (simp add: convert_main_def)
qed

section \<open>Header resolution\<close>

lemma rx_fullmatch_search: "rx_fullmatch r s \<Longrightarrow> rx_search r s"
proof -
  assume "rx_fullmatch r s"
  then have "rx_ends r s 0 \<noteq> []" by (auto simp: rx_fullmatch_def)
  moreover have "0 \<in> set [0..<Suc (length s)]" by simp
  ultimately show ?thesis unfolding rx_search_def list_ex_iff by blast
qed

lemma find_None_iff_ex: "(List.find P xs = None) = (\<not> list_ex P xs)"
  by (auto simp add: find_None_iff list_ex_iff)

lemma find_col_search:
  "find_col canon pats =
     (case List.find (\<lambda>p. list_ex (\<lambda>(k, orig). rx_search p k) canon) pats of
        None \<Rightarrow> None
      | Some p \<Rightarrow> map_option snd (List.find (\<lambda>(k, orig). rx_search p k) canon))"
proof (induction pats)
  case Nil
  then show ?case by simp
next
  case (Cons pat pats)
  have eq: "(\<lambda>(k, orig). rx_fullmatch pat k \<or> rx_search pat k) = (\<lambda>(k, orig :: string). rx_search pat k)"
    using rx_fullmatch_search by (auto simp: fun_eq_iff)
  show ?case
  proof (cases "list_ex (\<lambda>(k, orig). rx_search pat k) canon")
    case True
    then obtain e where "List.find (\<lambda>(k, orig). rx_search pat k) canon = Some e"
      using find_None_iff_ex [of "\<lambda>(k, orig). rx_search pat k" canon] by (cases "List.find (\<lambda>(k, orig). rx_search pat k) canon") auto
    with True show ?thesis by (simp add: eq split: prod.splits)
  next
    case False
    then have "List.find (\<lambda>(k, orig). rx_search pat k) canon = None"
      by (simp add: find_None_iff_ex)
    with False Cons.IH show ?thesis by (simp add: eq)
  qed
qed

lemma canon_add_props:
  assumes "distinct (map fst canon)"
  shows "distinct (map fst (canon_add canon hs))"
    and "\<exists>new. canon_add canon hs = canon @ new \<and> subseq (map snd new) hs \<and>
            (\<forall>e\<in>set new. fst e = canon_key (snd e) \<and> fst e \<noteq> [])"
    and "map_of (canon_add canon hs) k =
          (case map_of canon k of Some h \<Rightarrow> Some h
           | None \<Rightarrow> if k = [] then None else List.find (\<lambda>h. canon_key h = k) hs)"
  using assms
proof (induction hs arbitrary: canon)
  case Nil
  { case 1 then show ?case by simp
  next case 2 then show ?case by simp
  next case 3 then show ?case by (simp split: option.splits) }
next
  case (Cons h hs)
  let ?k = "canon_key h"
  { case 1
    show ?case
    proof (cases "?k \<noteq> [] \<and> ?k \<notin> set (map fst canon)")
      case True
      with 1 have "distinct (map fst (canon @ [(?k, h)]))" by simp
      from Cons.IH(1) [OF this] True show ?thesis by (simp add: Let_def)
    next
      case False
      with Cons.IH(1) [OF 1] show ?thesis by (auto simp add: Let_def)
    qed
  next
    case 2
    show ?case
    proof (cases "?k \<noteq> [] \<and> ?k \<notin> set (map fst canon)")
      case True
      with 2 have d: "distinct (map fst (canon @ [(?k, h)]))" by simp
      from Cons.IH(2) [OF d] obtain new where n: "canon_add (canon @ [(?k, h)]) hs = (canon @ [(?k, h)]) @ new"
        "subseq (map snd new) hs" "\<forall>e\<in>set new. fst e = canon_key (snd e) \<and> fst e \<noteq> []" by blast
      have "canon_add canon (h # hs) = canon @ ((?k, h) # new)" using True n(1) by (simp add: Let_def)
      moreover have "subseq (map snd ((?k, h) # new)) (h # hs)" using n(2) by simp
      moreover have "\<forall>e\<in>set ((?k, h) # new). fst e = canon_key (snd e) \<and> fst e \<noteq> []" using n(3) True by auto
      ultimately show ?thesis by blast
    next
      case False
      from Cons.IH(2) [OF 2] obtain new where n: "canon_add canon hs = canon @ new"
        "subseq (map snd new) hs" "\<forall>e\<in>set new. fst e = canon_key (snd e) \<and> fst e \<noteq> []" by blast
      have "canon_add canon (h # hs) = canon @ new" using False n(1) by (auto simp add: Let_def)
      moreover have "subseq (map snd new) (h # hs)" using n(2) by (rule list_emb_Cons)
      ultimately show ?thesis using n(3) by blast
    qed
  next
    case 3
    show ?case
    proof (cases "?k \<noteq> [] \<and> ?k \<notin> set (map fst canon)")
      case True
      with 3 have d: "distinct (map fst (canon @ [(?k, h)]))" by simp
      from True have none: "map_of canon ?k = None" by (simp add: map_of_eq_None_iff)
      have "map_of (canon @ [(?k, h)]) k =
          (case map_of canon k of Some h' \<Rightarrow> Some h' | None \<Rightarrow> if k = ?k then Some h else None)"
        by (simp add: map_add_def split: option.splits)
      with Cons.IH(3) [OF d] True none show ?thesis
        by (auto simp add: Let_def split: option.splits)
    next
      case False
      then have r: "canon_add canon (h # hs) = canon_add canon hs" by (auto simp add: Let_def)
      from False have "?k = [] \<or> map_of canon ?k \<noteq> None"
        by (auto simp: map_of_eq_None_iff)
      with Cons.IH(3) [OF 3] r show ?thesis
        by (auto split: option.splits)
    qed }
qed


text \<open>
  C9, as the code has it. A canonical name is the header in lower case without the characters
  outside \<open>a-z0-9\<close>; \<open>ColFinder\<close> keeps, in header order, one entry for each non-empty
  canonical name, with the first header that has it. \<open>find\<close> takes the patterns in priority
  order; the first pattern found somewhere in some canonical name decides, and the column is
  the first entry, in header order, whose canonical name contains a match of it. A full
  match implies a match somewhere, so the test for a full match changes nothing: an exact
  full match is not preferred to a substring match.
\<close>
theorem find_col_first_match:
  "find_col canon pats =
     (case List.find (\<lambda>p. list_ex (\<lambda>(k, orig). rx_search p k) canon) pats of
        None \<Rightarrow> None
      | Some p \<Rightarrow> map_option snd (List.find (\<lambda>(k, orig). rx_search p k) canon)) \<and>
   (rx_fullmatch p k \<longrightarrow> rx_search p k) \<and>
   distinct (map fst (ColFinder hs)) \<and>
   subseq (map snd (ColFinder hs)) hs \<and>
   (\<forall>e\<in>set (ColFinder hs). fst e = canon_key (snd e) \<and> fst e \<noteq> []) \<and>
   map_of (ColFinder hs) k = (if k = [] then None else List.find (\<lambda>h. canon_key h = k) hs)"
proof -
  have d: "distinct (map fst ([] :: (string \<times> string) list))" by simp
  from canon_add_props(2) [OF d, of hs] have
    "subseq (map snd (ColFinder hs)) hs \<and> (\<forall>e\<in>set (ColFinder hs). fst e = canon_key (snd e) \<and> fst e \<noteq> [])"
    by (auto simp: ColFinder_def)
  moreover from canon_add_props(3) [OF d, of hs k] have
    "map_of (ColFinder hs) k = (if k = [] then None else List.find (\<lambda>h. canon_key h = k) hs)"
    by (simp add: ColFinder_def)
  moreover from canon_add_props(1) [OF d, of hs] have "distinct (map fst (ColFinder hs))"
    by (simp add: ColFinder_def)
  ultimately show ?thesis using find_col_search [of canon pats] rx_fullmatch_search [of p k] by blast
qed

theorem find_col_first_match_witness:
  "find_col (ColFinder [''Image Data ID'', ''Subject'', ''Sex''])
     [Cat Bol (Cat (Lit ''imageuid'') Eol), Cat (Lit ''image'') (Cat (Opt (Lit ''data'')) (Lit ''id''))]
   = Some ''Image Data ID''"
proof -
  let ?c = "ColFinder [''Image Data ID'', ''Subject'', ''Sex'']"
  let ?ps = "[Cat Bol (Cat (Lit ''imageuid'') Eol), Cat (Lit ''image'') (Cat (Opt (Lit ''data'')) (Lit ''id''))]"
  have "(case List.find (\<lambda>p. list_ex (\<lambda>(k, orig). rx_search p k) ?c) ?ps of
        None \<Rightarrow> None
      | Some p \<Rightarrow> map_option snd (List.find (\<lambda>(k, orig). rx_search p k) ?c)) = Some ''Image Data ID''"
    by code_simp
  with find_col_first_match [of ?c ?ps] show ?thesis by simp
qed

text \<open>
  C9 as stated fails: with the headers \<open>Hybrid\<close> and \<open>RID\<close> and the pattern \<open>rid\<close>, the
  canonical name \<open>rid\<close> is an exact full match and \<open>hybrid\<close> only contains the pattern, yet
  the column found is \<open>Hybrid\<close>, the first in header order.
\<close>
theorem find_col_substring_wins:
  "find_col (ColFinder [''Hybrid'', ''RID'']) [Lit ''rid''] = Some ''Hybrid'' \<and>
   rx_fullmatch (Lit ''rid'') (canon_key ''RID'') \<and>
   \<not> rx_fullmatch (Lit ''rid'') (canon_key ''Hybrid'')"
  by code_simp


section \<open>Subject pairing\<close>

lemma flat_pairs_take: "take (2 * n) (flat_pairs ps) = flat_pairs (take n ps)"
proof (induction ps arbitrary: n)
  case Nil
  then show ?case by (simp add: flat_pairs_def)
next
  case (Cons p ps)
  show ?case
  proof (cases n)
    case 0
    then show ?thesis by (simp add: flat_pairs_def)
  next
    case (Suc m)
    have "flat_pairs (p # ps) = fst p # snd p # flat_pairs ps"
      by (cases p) (simp add: flat_pairs_def)
    moreover have "flat_pairs (take (Suc m) (p # ps)) = fst p # snd p # flat_pairs (take m ps)"
      by (cases p) (simp add: flat_pairs_def)
    ultimately show ?thesis using Suc Cons.IH [of m] by simp
  qed
qed

lemma length_flat_pairs: "length (flat_pairs ps) = 2 * length ps"
  by (induction ps) (auto simp: flat_pairs_def)

lemma flat_pairs_append: "flat_pairs (xs @ ys) = flat_pairs xs @ flat_pairs ys"
  by (simp add: flat_pairs_def)

lemma scan_j_nocap:
  "max_pairs_per_subject cfg \<le> 0 \<Longrightarrow>
   scan_j cfg Ai rest count = (flat_pairs (quals cfg Ai rest), count + int (length (quals cfg Ai rest)))"
  by (induction rest arbitrary: count) (auto simp: quals_def flat_pairs_def accepted_def)

lemma scan_j_cap:
  "0 < max_pairs_per_subject cfg \<Longrightarrow> count < max_pairs_per_subject cfg \<Longrightarrow>
   scan_j cfg Ai rest count =
     (flat_pairs (take (nat (max_pairs_per_subject cfg - count)) (quals cfg Ai rest)),
      count + int (length (take (nat (max_pairs_per_subject cfg - count)) (quals cfg Ai rest))))"
proof (induction rest arbitrary: count)
  case Nil
  then show ?case by (simp add: quals_def flat_pairs_def)
next
  case (Cons Bj rest)
  let ?mx = "max_pairs_per_subject cfg"
  show ?case
  proof (cases "accepted cfg Ai Bj")
    case False
    then have "scan_j cfg Ai (Bj # rest) count = scan_j cfg Ai rest count"
      by (auto simp: accepted_def)
    moreover from False have "quals cfg Ai (Bj # rest) = quals cfg Ai rest" by (simp add: quals_def)
    ultimately show ?thesis using Cons.IH [OF Cons.prems] by simp
  next
    case True
    then have q: "quals cfg Ai (Bj # rest) = (fst Ai, fst Bj) # quals cfg Ai rest" by (simp add: quals_def)
    from True have a: "\<not> (same_split cfg \<and> split (fst Ai) \<noteq> split (fst Bj))" "\<not> gap_below cfg Ai Bj"
      by (auto simp: accepted_def)
    show ?thesis
    proof (cases "count + 1 \<ge> ?mx")
      case True
      with Cons.prems have n: "nat (?mx - count) = 1" by simp
      from True a Cons.prems have "scan_j cfg Ai (Bj # rest) count = ([fst Ai, fst Bj], count + 1)" by auto
      then show ?thesis unfolding q n by (simp add: flat_pairs_def)
    next
      case False
      then have lt: "count + 1 < ?mx" by simp
      then have n: "nat (?mx - count) = Suc (nat (?mx - (count + 1)))" by simp
      from False a have "scan_j cfg Ai (Bj # rest) count =
          (case scan_j cfg Ai rest (count + 1) of (rs, c) \<Rightarrow> (fst Ai # fst Bj # rs, c))" by auto
      also have "\<dots> = (fst Ai # fst Bj # flat_pairs (take (nat (?mx - (count + 1))) (quals cfg Ai rest)),
          count + 1 + int (length (take (nat (?mx - (count + 1))) (quals cfg Ai rest))))"
        using Cons.IH [OF Cons.prems(1) lt] by simp
      finally show ?thesis unfolding q n by (simp add: flat_pairs_def)
    qed
  qed
qed

lemma scan_i_nocap:
  "max_pairs_per_subject cfg \<le> 0 \<Longrightarrow> scan_i cfg lst count = flat_pairs (all_quals cfg lst)"
  by (induction lst arbitrary: count) (simp_all add: scan_j_nocap flat_pairs_append, simp add: flat_pairs_def)

lemma scan_i_cap:
  "0 < max_pairs_per_subject cfg \<Longrightarrow> count < max_pairs_per_subject cfg \<Longrightarrow>
   scan_i cfg lst count = flat_pairs (take (nat (max_pairs_per_subject cfg - count)) (all_quals cfg lst))"
proof (induction lst arbitrary: count)
  case Nil
  then show ?case by (simp add: flat_pairs_def)
next
  case (Cons Ai rest)
  let ?mx = "max_pairs_per_subject cfg"
  let ?n = "nat (?mx - count)"
  let ?q = "quals cfg Ai rest"
  have sj: "scan_j cfg Ai rest count = (flat_pairs (take ?n ?q), count + int (length (take ?n ?q)))"
    using Cons.prems by (rule scan_j_cap)
  show ?case
  proof (cases "?n \<le> length ?q")
    case True
    then have "count + int (length (take ?n ?q)) \<ge> ?mx" using Cons.prems by simp
    then have e1: "scan_i cfg (Ai # rest) count = flat_pairs (take ?n ?q)"
      using sj Cons.prems(1) by simp
    have e2: "take ?n (all_quals cfg (Ai # rest)) = take ?n ?q" using True by simp
    show ?thesis by (simp only: e1 e2)
  next
    case False
    then have len: "length (take ?n ?q) = length ?q" and tk: "take ?n ?q = ?q" by simp_all
    from False have lt: "count + int (length ?q) < ?mx" by linarith
    then have "scan_i cfg (Ai # rest) count = flat_pairs ?q @ scan_i cfg rest (count + int (length ?q))"
      using sj tk by simp
    also have "\<dots> = flat_pairs ?q @ flat_pairs (take (nat (?mx - (count + int (length ?q)))) (all_quals cfg rest))"
      using Cons.IH [OF Cons.prems(1) lt] by simp
    also have "nat (?mx - (count + int (length ?q))) = ?n - length ?q" by linarith
    finally show ?thesis using False by (simp add: flat_pairs_append)
  qed
qed


lemma accepted_cap_irrelevant: "accepted (cfg\<lparr>max_pairs_per_subject := m\<rparr>) = accepted cfg"
  by (simp add: fun_eq_iff accepted_def gap_below_def)

lemma all_quals_cap_irrelevant: "all_quals (cfg\<lparr>max_pairs_per_subject := m\<rparr>) lst = all_quals cfg lst"
  by (induction lst) (simp_all add: quals_def accepted_cap_irrelevant)

text \<open>
  C3, as the code has it. In pairing mode \<open>all\<close> with a positive cap, a group of two or
  more rows contributes exactly the first \<open>max_pairs_per_subject\<close> pairs of what it would
  contribute without a cap (all of them when there are fewer), hence at most that many
  pairs. When the cap is reached the scan over the later rows stops and so does the scan
  over the earlier rows: no further earlier row of the group is tried.
\<close>
theorem cap_ends_group:
  assumes "0 < max_pairs_per_subject cfg" and "pairing cfg \<noteq> ''edge''" and "2 \<le> length lst0"
  shows "process_group cfg lst0
           = take (2 * nat (max_pairs_per_subject cfg))
               (process_group (cfg\<lparr>max_pairs_per_subject := 0\<rparr>) lst0) \<and>
         length (process_group cfg lst0) \<le> 2 * nat (max_pairs_per_subject cfg)"
proof -
  let ?lst = "sort_key snd lst0"
  let ?cfg0 = "cfg\<lparr>max_pairs_per_subject := 0\<rparr>"
  have a: "process_group cfg lst0 = flat_pairs (take (nat (max_pairs_per_subject cfg)) (all_quals cfg ?lst))"
    using assms scan_i_cap [of cfg 0 ?lst] by (simp add: process_group_def Let_def)
  have "process_group ?cfg0 lst0 = scan_i ?cfg0 ?lst 0"
    using assms by (simp add: process_group_def Let_def)
  also have "\<dots> = flat_pairs (all_quals ?cfg0 ?lst)" by (rule scan_i_nocap) simp
  finally have b: "process_group ?cfg0 lst0 = flat_pairs (all_quals cfg ?lst)"
    by (simp add: all_quals_cap_irrelevant)
  have "process_group cfg lst0 = take (2 * nat (max_pairs_per_subject cfg)) (process_group ?cfg0 lst0)"
    unfolding a b by (simp add: flat_pairs_take)
  then show ?thesis by (metis length_take min.cobounded2)
qed

theorem cap_ends_group_witness:
  "map image_uid (process_group
      \<lparr> pairing = ''all'', td_thresh = 0, same_split = False, max_pairs_per_subject = 1,
        subject_group = ''exact'', subject_regex = None \<rparr>
      [(fields10 [''image_uid'' \<mapsto> ''I1''], (2018, 1, 1, 0, 0, 0)),
       (fields10 [''image_uid'' \<mapsto> ''I2''], (2019, 1, 1, 0, 0, 0)),
       (fields10 [''image_uid'' \<mapsto> ''I3''], (2020, 1, 1, 0, 0, 0))]) = [''I1'', ''I2'']"
proof -
  let ?cfg = "\<lparr> pairing = ''all'', td_thresh = 0, same_split = False, max_pairs_per_subject = 1,
        subject_group = ''exact'', subject_regex = None \<rparr>"
  let ?lst = "[(fields10 [''image_uid'' \<mapsto> ''I1''], (2018 :: nat, 1 :: nat, 1 :: nat, 0 :: nat, 0 :: nat, 0 :: nat)),
       (fields10 [''image_uid'' \<mapsto> ''I2''], (2019, 1, 1, 0, 0, 0)),
       (fields10 [''image_uid'' \<mapsto> ''I3''], (2020, 1, 1, 0, 0, 0))]"
  have h: "0 < max_pairs_per_subject ?cfg" "pairing ?cfg \<noteq> ''edge''" "2 \<le> length ?lst" by simp_all
  have u: "map image_uid (take (2 * nat (max_pairs_per_subject ?cfg))
        (process_group (?cfg\<lparr>max_pairs_per_subject := 0\<rparr>) ?lst)) = [''I1'', ''I2'']"
    by code_simp
  from cap_ends_group [OF h] u show ?thesis by simp
qed

text \<open>
  C3 as stated fails. Three scans of one subject, a year apart, cap 1: the code emits the
  pair (\<open>I1\<close>, \<open>I2\<close>) and leaves the group, while going on with the next earlier row, as the
  claim has it, would also emit (\<open>I2\<close>, \<open>I3\<close>).
\<close>
theorem cap_does_not_continue:
  "map image_uid (build_B
      \<lparr> pairing = ''all'', td_thresh = 0, same_split = False, max_pairs_per_subject = 1,
        subject_group = ''exact'', subject_regex = None \<rparr>
      [[''subject_id'' \<mapsto> ''S1'', ''image_uid'' \<mapsto> ''I1'', ''image_path'' \<mapsto> ''/d/S1_20180101/w.nii.gz''],
       [''subject_id'' \<mapsto> ''S1'', ''image_uid'' \<mapsto> ''I2'', ''image_path'' \<mapsto> ''/d/S1_20190101/w.nii.gz''],
       [''subject_id'' \<mapsto> ''S1'', ''image_uid'' \<mapsto> ''I3'', ''image_path'' \<mapsto> ''/d/S1_20200101/w.nii.gz'']])
     = [''I1'', ''I2''] \<and>
   map image_uid (scan_i_spec
      \<lparr> pairing = ''all'', td_thresh = 0, same_split = False, max_pairs_per_subject = 1,
        subject_group = ''exact'', subject_regex = None \<rparr>
      (sort_key snd (enrich
      [[''subject_id'' \<mapsto> ''S1'', ''image_uid'' \<mapsto> ''I1'', ''image_path'' \<mapsto> ''/d/S1_20180101/w.nii.gz''],
       [''subject_id'' \<mapsto> ''S1'', ''image_uid'' \<mapsto> ''I2'', ''image_path'' \<mapsto> ''/d/S1_20190101/w.nii.gz''],
       [''subject_id'' \<mapsto> ''S1'', ''image_uid'' \<mapsto> ''I3'', ''image_path'' \<mapsto> ''/d/S1_20200101/w.nii.gz'']])) 0)
     = [''I1'', ''I2'', ''I2'', ''I3'']"
  by code_simp


lemma group_add_map_of:
  "map_of (group_add g k r) = (map_of g)(k \<mapsto> (case map_of g k of None \<Rightarrow> [r] | Some l \<Rightarrow> l @ [r]))"
  by (induction g) (auto simp: fun_eq_iff)

lemma group_add_keys:
  "map fst (group_add g k r) = (if k \<in> set (map fst g) then map fst g else map fst g @ [k])"
proof (induction g)
  case Nil
  then show ?case by simp
next
  case (Cons e g)
  obtain k' l where e: "e = (k', l)" by (cases e)
  show ?case
  proof (cases "k' = k")
    case True
    then show ?thesis by (simp add: e)
  next
    case False
    then show ?thesis using Cons.IH by (simp add: e)
  qed
qed

lemma group_add_distinct: "distinct (map fst g) \<Longrightarrow> distinct (map fst (group_add g k r))"
  by (simp add: group_add_keys)

lemma grouping:
  "distinct (map fst (foldl (\<lambda>g r. group_add g (f r) r) [] es)) \<and>
   map_of (foldl (\<lambda>g r. group_add g (f r) r) [] es) k =
     (if \<exists>r\<in>set es. f r = k then Some (filter (\<lambda>r. f r = k) es) else None)"
proof (induction es rule: rev_induct)
  case Nil
  then show ?case by simp
next
  case (snoc r es)
  let ?g = "foldl (\<lambda>g r. group_add g (f r) r) [] es"
  have d: "distinct (map fst (group_add ?g (f r) r))" using snoc by (simp add: group_add_distinct)
  have m: "map_of (group_add ?g (f r) r) k =
     (if \<exists>x\<in>set (es @ [r]). f x = k then Some (filter (\<lambda>x. f x = k) (es @ [r])) else None)"
    using snoc by (auto simp: group_add_map_of)
  from d m show ?case by simp
qed

lemma group_rows_member:
  assumes "(k, lst) \<in> set (group_rows cfg es)"
  shows "lst = filter (\<lambda>r. row_key cfg r = k) es" and "lst \<noteq> []" and "set lst \<subseteq> set es"
proof -
  have dist: "distinct (map fst (group_rows cfg es))"
    unfolding group_rows_def using grouping [of "row_key cfg" es k] by (rule conjunct1)
  have mo: "map_of (group_rows cfg es) k =
     (if \<exists>r\<in>set es. row_key cfg r = k then Some (filter (\<lambda>r. row_key cfg r = k) es) else None)"
    unfolding group_rows_def using grouping [of "row_key cfg" es k] by (rule conjunct2)
  from dist assms have "map_of (group_rows cfg es) k = Some lst"
    by (simp only: map_of_eq_Some_iff)
  with mo have l: "(\<exists>r\<in>set es. row_key cfg r = k)" "lst = filter (\<lambda>r. row_key cfg r = k) es"
    by (auto split: if_splits)
  from l(2) show "lst = filter (\<lambda>r. row_key cfg r = k) es" .
  from l show "lst \<noteq> []" by (auto simp: filter_empty_conv)
  from l(2) show "set lst \<subseteq> set es" by auto
qed

lemma enrich_time: "e \<in> set (enrich rows) \<Longrightarrow> row_time (fst e) = Some (snd e)"
  by (induction rows) (auto simp: row_time_def fields10_def split: option.splits)

lemma sorted_hd_last:
  assumes "sorted (map f xs)" "x \<in> set xs"
  shows "f (hd xs) \<le> f x" and "f x \<le> f (last xs)"
proof -
  from assms(2) obtain i where i: "i < length xs" "xs ! i = x" by (auto simp: in_set_conv_nth)
  then have ne: "xs \<noteq> []" by auto
  have "map f xs ! 0 \<le> map f xs ! i" using assms(1) i(1) by (intro sorted_nth_mono) auto
  with i ne show "f (hd xs) \<le> f x" by (simp add: hd_conv_nth)
  have "map f xs ! i \<le> map f xs ! (length xs - 1)" using assms(1) i(1) by (intro sorted_nth_mono) auto
  with i ne show "f x \<le> f (last xs)" by (simp add: last_conv_nth)
qed

lemma edge_rows_shape:
  assumes "lst \<noteq> []"
  shows "edge_rows cfg lst = (if accepted cfg (hd lst) (last lst) then [fst (hd lst), fst (last lst)] else [])"
  using assms by (cases lst) (auto simp: edge_rows_def accepted_def Let_def)






lemma in_pairs_append: "in_pairs Q xs \<Longrightarrow> in_pairs Q ys \<Longrightarrow> in_pairs Q (xs @ ys)"
  by (induction Q xs rule: in_pairs.induct) auto

lemma in_pairs_concat: "(\<And>xs. xs \<in> set xss \<Longrightarrow> in_pairs Q xs) \<Longrightarrow> in_pairs Q (concat xss)"
  by (induction xss) (auto intro: in_pairs_append)

lemma in_pairs_flat: "(\<And>a b. (a, b) \<in> set ps \<Longrightarrow> Q a b) \<Longrightarrow> in_pairs Q (flat_pairs ps)"
  by (induction ps) (auto simp: flat_pairs_def)

lemma in_pairs_pairs_of:
  "in_pairs Q xs \<Longrightarrow> xs = flat_pairs (pairs_of xs) \<and> (\<forall>p\<in>set (pairs_of xs). Q (fst p) (snd p))"
  by (induction Q xs rule: in_pairs.induct) (auto simp: flat_pairs_def)

lemma all_quals_ok:
  assumes "sorted (map snd lst)" and "\<And>e. e \<in> set lst \<Longrightarrow> row_time (fst e) = Some (snd e)"
    and "(a, b) \<in> set (all_quals cfg lst)"
  shows "pair_ok cfg a b"
  using assms
proof (induction lst)
  case Nil
  then show ?case by simp
next
  case (Cons Ai rest)
  from Cons.prems(3) consider "(a, b) \<in> set (quals cfg Ai rest)" | "(a, b) \<in> set (all_quals cfg rest)"
    by auto
  then show ?case
  proof cases
    case 1
    then obtain Bj where b: "Bj \<in> set rest" "accepted cfg Ai Bj" "a = fst Ai" "b = fst Bj"
      by (auto simp: quals_def)
    from Cons.prems(1) b(1) have le: "snd Ai \<le> snd Bj" by auto
    have "row_time (fst Ai) = Some (snd Ai)" "row_time (fst Bj) = Some (snd Bj)"
      using Cons.prems(2) b(1) by auto
    with le b(2) show ?thesis unfolding pair_ok_def b(3,4) by auto
  next
    case 2
    from Cons.prems(1) have "sorted (map snd rest)" by simp
    from Cons.IH [OF this _ 2] Cons.prems(2) show ?thesis by simp
  qed
qed

lemma process_group_in_pairs:
  assumes wf: "\<And>e. e \<in> set lst0 \<Longrightarrow> row_time (fst e) = Some (snd e)"
  shows "in_pairs (pair_ok cfg) (process_group cfg lst0)"
proof (cases "length lst0 < 2")
  case True
  then show ?thesis by (simp add: process_group_def)
next
  case False
  let ?s = "sort_key snd lst0"
  have so: "sorted (map snd ?s)" by (rule sorted_sort_key)
  have st: "set ?s = set lst0" by simp
  from False have ne: "?s \<noteq> []" by (cases lst0) auto
  show ?thesis
  proof (cases "pairing cfg = ''edge''")
    case True
    then have p: "process_group cfg lst0 = edge_rows cfg ?s"
      using False by (simp add: process_group_def Let_def)
    have hl: "hd ?s \<in> set lst0" "last ?s \<in> set lst0"
      using ne st hd_in_set [of ?s] last_in_set [of ?s] by auto
    have le: "snd (hd ?s) \<le> snd (last ?s)" using sorted_hd_last(1) [OF so] last_in_set [OF ne] by blast
    have "pair_ok cfg (fst (hd ?s)) (fst (last ?s))" if "accepted cfg (hd ?s) (last ?s)"
      unfolding pair_ok_def using wf [OF hl(1)] wf [OF hl(2)] le that by auto
    then show ?thesis unfolding p edge_rows_shape [OF ne] by simp
  next
    case all: False
    then have p: "process_group cfg lst0 = scan_i cfg ?s 0"
      using False by (simp add: process_group_def Let_def)
    have ok: "pair_ok cfg a b" if "(a, b) \<in> set (all_quals cfg ?s)" for a b
      using so _ that by (rule all_quals_ok) (simp add: wf)
    show ?thesis
    proof (cases "0 < max_pairs_per_subject cfg")
      case True
      then have "scan_i cfg ?s 0 = flat_pairs (take (nat (max_pairs_per_subject cfg)) (all_quals cfg ?s))"
        using scan_i_cap [of cfg 0 ?s] by simp
      moreover have "in_pairs (pair_ok cfg) (flat_pairs (take (nat (max_pairs_per_subject cfg)) (all_quals cfg ?s)))"
        by (rule in_pairs_flat) (auto dest: in_set_takeD intro: ok)
      ultimately show ?thesis unfolding p by simp
    next
      case False
      then have "scan_i cfg ?s 0 = flat_pairs (all_quals cfg ?s)"
        using scan_i_nocap [of cfg ?s 0] by simp
      moreover have "in_pairs (pair_ok cfg) (flat_pairs (all_quals cfg ?s))"
        by (rule in_pairs_flat) (rule ok)
      ultimately show ?thesis unfolding p by simp
    qed
  qed
qed

lemma build_B_in_pairs: "in_pairs (pair_ok cfg) (build_B cfg rows)"
  unfolding build_B_def
proof (rule in_pairs_concat)
  fix xs assume "xs \<in> set (map (\<lambda>(key, lst). process_group cfg lst) (group_rows cfg (enrich rows)))"
  then obtain k lst where m: "(k, lst) \<in> set (group_rows cfg (enrich rows))" "xs = process_group cfg lst"
    by auto
  have "row_time (fst e) = Some (snd e)" if "e \<in> set lst" for e
    using group_rows_member(3) [OF m(1)] that enrich_time by blast
  then show "in_pairs (pair_ok cfg) xs" unfolding m(2) by (rule process_group_in_pairs)
qed


lemma pairs_of_head: "2 \<le> length xs \<Longrightarrow> (hd xs, hd (tl xs)) \<in> set (pairs_of xs)"
  by (cases xs rule: pairs_of.cases) auto

text \<open>
  C7. For every input row set and configuration, the rows of \<open>B.csv\<close> are the accepted
  pairs written one after the other, two consecutive rows for each pair: reading the output
  back two by two gives a list of pairs whose rows, in order, are the output, so the number
  of rows is twice the number of pairs and even. In each pair both rows carry a time, the time
  of the first row is not later than that of the second, and the pair satisfies the same-split
  constraint (when enabled) and the gap threshold.
\<close>
theorem b_rows_two_per_pair:
  "build_B cfg rows = flat_pairs (pairs_of (build_B cfg rows)) \<and>
   length (build_B cfg rows) = 2 * length (pairs_of (build_B cfg rows)) \<and>
   even (length (build_B cfg rows)) \<and>
   (\<forall>p\<in>set (pairs_of (build_B cfg rows)). pair_ok cfg (fst p) (snd p))"
proof -
  from in_pairs_pairs_of [OF build_B_in_pairs [of cfg rows]]
  have a: "build_B cfg rows = flat_pairs (pairs_of (build_B cfg rows))"
    and b: "\<forall>p\<in>set (pairs_of (build_B cfg rows)). pair_ok cfg (fst p) (snd p)" by blast+
  have "length (build_B cfg rows) = length (flat_pairs (pairs_of (build_B cfg rows)))"
    using a by simp
  then have c: "length (build_B cfg rows) = 2 * length (pairs_of (build_B cfg rows))"
    by (simp only: length_flat_pairs)
  then have "even (length (build_B cfg rows))" by simp
  with a b c show ?thesis by blast
qed

theorem b_rows_two_per_pair_witness:
  "length (build_B
      \<lparr> pairing = ''all'', td_thresh = 0, same_split = False, max_pairs_per_subject = 0,
        subject_group = ''exact'', subject_regex = None \<rparr>
      [[''subject_id'' \<mapsto> ''S1'', ''image_uid'' \<mapsto> ''I2'', ''image_path'' \<mapsto> ''/d/S1_20190101/w.nii.gz''],
       [''subject_id'' \<mapsto> ''S1'', ''image_uid'' \<mapsto> ''I1'', ''image_path'' \<mapsto> ''/d/S1_20180101/w.nii.gz''],
       [''subject_id'' \<mapsto> ''S1'', ''image_uid'' \<mapsto> ''I3'', ''image_path'' \<mapsto> ''/d/S1_20200101/w.nii.gz'']]) = 6 \<and>
   pair_ok
      \<lparr> pairing = ''all'', td_thresh = 0, same_split = False, max_pairs_per_subject = 0,
        subject_group = ''exact'', subject_regex = None \<rparr>
      (hd (build_B
      \<lparr> pairing = ''all'', td_thresh = 0, same_split = False, max_pairs_per_subject = 0,
        subject_group = ''exact'', subject_regex = None \<rparr>
      [[''subject_id'' \<mapsto> ''S1'', ''image_uid'' \<mapsto> ''I2'', ''image_path'' \<mapsto> ''/d/S1_20190101/w.nii.gz''],
       [''subject_id'' \<mapsto> ''S1'', ''image_uid'' \<mapsto> ''I1'', ''image_path'' \<mapsto> ''/d/S1_20180101/w.nii.gz''],
       [''subject_id'' \<mapsto> ''S1'', ''image_uid'' \<mapsto> ''I3'', ''image_path'' \<mapsto> ''/d/S1_20200101/w.nii.gz'']]))
      (hd (tl (build_B
      \<lparr> pairing = ''all'', td_thresh = 0, same_split = False, max_pairs_per_subject = 0,
        subject_group = ''exact'', subject_regex = None \<rparr>
      [[''subject_id'' \<mapsto> ''S1'', ''image_uid'' \<mapsto> ''I2'', ''image_path'' \<mapsto> ''/d/S1_20190101/w.nii.gz''],
       [''subject_id'' \<mapsto> ''S1'', ''image_uid'' \<mapsto> ''I1'', ''image_path'' \<mapsto> ''/d/S1_20180101/w.nii.gz''],
       [''subject_id'' \<mapsto> ''S1'', ''image_uid'' \<mapsto> ''I3'', ''image_path'' \<mapsto> ''/d/S1_20200101/w.nii.gz'']])))"
proof -
  let ?cfg = "\<lparr> pairing = ''all'', td_thresh = 0, same_split = False, max_pairs_per_subject = 0,
        subject_group = ''exact'', subject_regex = None \<rparr>"
  let ?B = "build_B ?cfg
      [[''subject_id'' \<mapsto> ''S1'', ''image_uid'' \<mapsto> ''I2'', ''image_path'' \<mapsto> ''/d/S1_20190101/w.nii.gz''],
       [''subject_id'' \<mapsto> ''S1'', ''image_uid'' \<mapsto> ''I1'', ''image_path'' \<mapsto> ''/d/S1_20180101/w.nii.gz''],
       [''subject_id'' \<mapsto> ''S1'', ''image_uid'' \<mapsto> ''I3'', ''image_path'' \<mapsto> ''/d/S1_20200101/w.nii.gz'']]"
  have l: "length ?B = 6" by code_simp
  then have "(hd ?B, hd (tl ?B)) \<in> set (pairs_of ?B)" by (intro pairs_of_head) simp
  moreover have "\<forall>p\<in>set (pairs_of ?B). pair_ok ?cfg (fst p) (snd p)"
    using b_rows_two_per_pair by (rule conjunct2 [THEN conjunct2, THEN conjunct2])
  ultimately have "pair_ok ?cfg (hd ?B) (hd (tl ?B))" by fastforce
  with l show ?thesis by (rule conjI)
qed

section \<open>Automatic split\<close>














end
